theory Spec2Isabelle
  imports Main "HOL-Library.AList"
begin

section \<open>Data model\<close>

text \<open>
  The cache table of cache2go (files cacheitem.go and cachetable.go of the package),
  embedded as functions on an explicit state.

  \<^item> A \<open>time.Duration\<close> is a number of nanoseconds and a \<open>time.Time\<close> is an instant
    of the process's monotonic clock, both integers. The only arithmetic on them is
    \<open>Time.Sub\<close>, whose saturation at the ends of the 64-bit range is written out, and
    the difference \<open>lifeSpan - now.Sub(accessedOn)\<close>, taken in a branch where
    \<open>now.Sub(accessedOn) < lifeSpan\<close>: it stays in the 64-bit range when no access
    time is ahead of the clock.
  \<^item> \<open>accessCount\<close> is an \<open>int64\<close>: an integer, with the wrap-around of \<open>++\<close>
    written out in \<open>KeepAlive\<close>. The \<open>count\<close> argument of \<open>MostAccessed\<close> and its loop
    counter, which stays below the length of the table, are integers too.
  \<^item> A key is an \<open>interface{}\<close>. The functions of the table are embedded for the keys
    Go can hash, the values of the type \<open>'k\<close>; what they do with a key it cannot hash
    (a slice, a map, a function) is in the section on the operations: the first index
    expression on the items map panics.
  \<^item> A \<open>world\<close> is a state of a table whose items map has been made, as \<open>Cache\<close> (in
    cache.go, which is not among the sources at hand) or \<open>Flush\<close> make it. The zero value
    of the exported type \<open>CacheTable\<close>, whose map is \<open>nil\<close>, is in the section on the
    operations too.
  \<^item> A \<open>*CacheItem\<close> is an address into a heap of items (a list, the address being
    the index); \<open>&item\<close> of a new item appends it.
  \<^item> A \<open>func\<close> value is known by an identifier; \<open>nil\<close> is \<open>None\<close>. Calling it
    appends an event to the trace of the state and changes nothing else: a callback
    is taken not to call the table back. The data loader alone is a function of the
    model: given the key, the arguments, the clock and the heap it returns a pointer
    (or \<open>nil\<close>) and the heap, in which it may have made or changed items.
  \<^item> \<open>map[interface{}]*CacheItem\<close> is an association list with distinct keys. A
    \<open>range\<close> visits it in the order of the list: Go fixes no order, and the list of
    a state is arbitrary.
  \<^item> The trace also records, in program order, every lock operation, every keyed
    access to the items map, every timer operation, every line given to the
    logger, and every entry into \<open>expirationCheck\<close>. The operations run one at a
    time: the locks are events, and nothing interleaves.
  \<^item> \<open>time.Now()\<close> reads a clock that never runs backwards: each reading advances
    it by the next element of \<open>ticks\<close>, a list of natural numbers owned by the
    environment (by 0 when the list is used up).
\<close>

type_synonym duration = int
type_synonym instant = int
type_synonym addr = nat
type_synonym callback = nat

record ('k, 'v) CacheItem =
  key :: 'k
  data :: 'v
  lifeSpan :: duration
  createdOn :: instant
  accessedOn :: instant
  accessCount :: int
  aboutToExpire :: "callback option"

text \<open>Modelled from the spec: the two error values, which errors.go declares
  (\<open>ErrKeyNotFound\<close> and \<open>ErrKeyNotFoundOrLoadable\<close>; the file is not among the
  sources).\<close>

datatype cache_error = ErrKeyNotFound | ErrKeyNotFoundOrLoadable

text \<open>A \<open>*time.Timer\<close> made by \<open>time.AfterFunc\<close>: whether it is still due to fire, and
  its delay. Its function is always \<open>go table.expirationCheck()\<close>.\<close>

datatype timer = Timer (pending: bool) (delay: duration)

datatype 'k log_line =
    LogTriggered duration string
  | LogInstalled string
  | LogAdding 'k duration string
  | LogAddingUnhashable duration string
  | LogDeleting 'k instant int string
  | LogFlushing string

datatype 'k event =
    TableLock | TableUnlock | TableRLock | TableRUnlock
  | ItemLock addr | ItemUnlock addr | ItemRLock addr | ItemRUnlock addr
  | MapLoad 'k | MapStore 'k addr | MapDelete 'k | MapReset
  | TimerStop | TimerArm duration
  | Println "'k log_line"
  | CallLoadData 'k
  | CallAddedItem callback addr
  | CallAboutToDeleteItem callback addr
  | CallAboutToExpire callback addr 'k
  | CallTrans callback 'k addr
  | EnterExpirationCheck

type_synonym ('k, 'v) loader =
  "'k \<Rightarrow> 'v list \<Rightarrow> instant \<Rightarrow> ('k, 'v) CacheItem list \<Rightarrow>
     addr option \<times> ('k, 'v) CacheItem list"

record ('k, 'v) world =
  heap :: "('k, 'v) CacheItem list"
  name :: string
  items :: "('k \<times> addr) list"
  cleanupTimer :: "timer option"
  cleanupInterval :: duration
  logger :: bool
  loadData :: "('k, 'v) loader option"
  addedItem :: "callback option"
  aboutToDeleteItem :: "callback option"
  clk :: instant
  ticks :: "nat list"
  trace :: "'k event list"

section \<open>The environment: trace, logger, clock\<close>

definition emit :: "'k event \<Rightarrow> ('k, 'v) world \<Rightarrow> ('k, 'v) world" where
  "emit e w = w\<lparr>trace := trace w @ [e]\<rparr>"

text \<open>\<open>table.log\<close>: nothing without a logger.\<close>

definition log :: "'k log_line \<Rightarrow> ('k, 'v) world \<Rightarrow> ('k, 'v) world" where
  "log v w = (if \<not> logger w then w else emit (Println v) w)"

definition time_Now :: "('k, 'v) world \<Rightarrow> instant \<times> ('k, 'v) world" where
  "time_Now w =
     (case ticks w of
        [] \<Rightarrow> (clk w, w)
      | d # ds \<Rightarrow> (clk w + int d, w\<lparr>clk := clk w + int d, ticks := ds\<rparr>))"

definition maxDuration :: duration where
  "maxDuration = 2 ^ 63 - 1"

definition minDuration :: duration where
  "minDuration = - (2 ^ 63)"

text \<open>\<open>t.Sub(u)\<close> of package time: the difference, or the largest (smallest) duration
  when the difference is beyond it.\<close>

definition time_Sub :: "instant \<Rightarrow> instant \<Rightarrow> duration" where
  "time_Sub t u =
     (if t - u > maxDuration then maxDuration
      else if t - u < minDuration then minDuration
      else t - u)"

text \<open>\<open>&item\<close> of a new item.\<close>

definition new_item :: "('k, 'v) CacheItem \<Rightarrow> ('k, 'v) world \<Rightarrow> addr \<times> ('k, 'v) world" where
  "new_item it w = (length (heap w), w\<lparr>heap := heap w @ [it]\<rparr>)"

section \<open>cacheitem.go\<close>

definition CreateCacheItem ::
  "'k \<Rightarrow> duration \<Rightarrow> 'v \<Rightarrow> ('k, 'v) world \<Rightarrow> ('k, 'v) CacheItem \<times> ('k, 'v) world" where
  "CreateCacheItem k l d w =
     (let (t, w1) = time_Now w
      in (\<lparr>key = k, data = d, lifeSpan = l, createdOn = t, accessedOn = t,
           accessCount = 0, aboutToExpire = None\<rparr>, w1))"

text \<open>The sum or difference \<open>x\<close> as Go's \<open>int64\<close> arithmetic yields it: wrapped
  around into the range from \<open>-2^63\<close> to \<open>2^63 - 1\<close>.\<close>

definition wrap64 :: "int \<Rightarrow> int" where
  "wrap64 x = (x + 2 ^ 63) mod 2 ^ 64 - 2 ^ 63"

definition KeepAlive :: "addr \<Rightarrow> ('k, 'v) world \<Rightarrow> ('k, 'v) world" where
  "KeepAlive a w =
     (let w1 = emit (ItemLock a) w;
          (t, w2) = time_Now w1;
          it = heap w2 ! a;
          w3 = w2\<lparr>heap := (heap w2)[a := it\<lparr>accessedOn := t,
                                              accessCount := wrap64 (accessCount it + 1)\<rparr>]\<rparr>
      in emit (ItemUnlock a) w3)"

definition LifeSpan :: "addr \<Rightarrow> ('k, 'v) world \<Rightarrow> duration \<times> ('k, 'v) world" where
  "LifeSpan a w = (lifeSpan (heap w ! a), w)"

definition AccessedOn :: "addr \<Rightarrow> ('k, 'v) world \<Rightarrow> instant \<times> ('k, 'v) world" where
  "AccessedOn a w =
     (let w1 = emit (ItemRLock a) w
      in (accessedOn (heap w1 ! a), emit (ItemRUnlock a) w1))"

definition CreatedOn :: "addr \<Rightarrow> ('k, 'v) world \<Rightarrow> instant \<times> ('k, 'v) world" where
  "CreatedOn a w = (createdOn (heap w ! a), w)"

definition AccessCount :: "addr \<Rightarrow> ('k, 'v) world \<Rightarrow> int \<times> ('k, 'v) world" where
  "AccessCount a w =
     (let w1 = emit (ItemRLock a) w
      in (accessCount (heap w1 ! a), emit (ItemRUnlock a) w1))"

definition Key :: "addr \<Rightarrow> ('k, 'v) world \<Rightarrow> 'k \<times> ('k, 'v) world" where
  "Key a w = (key (heap w ! a), w)"

definition Data :: "addr \<Rightarrow> ('k, 'v) world \<Rightarrow> 'v \<times> ('k, 'v) world" where
  "Data a w = (data (heap w ! a), w)"

definition SetAboutToExpireCallback ::
  "addr \<Rightarrow> callback option \<Rightarrow> ('k, 'v) world \<Rightarrow> ('k, 'v) world" where
  "SetAboutToExpireCallback a f w =
     (let w1 = emit (ItemLock a) w;
          w2 = w1\<lparr>heap := (heap w1)[a := (heap w1 ! a)\<lparr>aboutToExpire := f\<rparr>]\<rparr>
      in emit (ItemUnlock a) w2)"

section \<open>cachetable.go\<close>

definition Count :: "('k, 'v) world \<Rightarrow> nat \<times> ('k, 'v) world" where
  "Count w =
     (let w1 = emit TableRLock w
      in (length (items w1), emit TableRUnlock w1))"

fun Foreach_loop :: "callback \<Rightarrow> ('k \<times> addr) list \<Rightarrow> ('k, 'v) world \<Rightarrow> ('k, 'v) world" where
  "Foreach_loop f [] w = w"
| "Foreach_loop f ((k, v) # rest) w = Foreach_loop f rest (emit (CallTrans f k v) w)"

definition Foreach :: "callback \<Rightarrow> ('k, 'v) world \<Rightarrow> ('k, 'v) world" where
  "Foreach f w =
     (let w1 = emit TableRLock w;
          w2 = Foreach_loop f (items w1) w1
      in emit TableRUnlock w2)"

definition SetDataLoader :: "('k, 'v) loader option \<Rightarrow> ('k, 'v) world \<Rightarrow> ('k, 'v) world" where
  "SetDataLoader f w = emit TableUnlock ((emit TableLock w)\<lparr>loadData := f\<rparr>)"

definition SetAddedItemCallback :: "callback option \<Rightarrow> ('k, 'v) world \<Rightarrow> ('k, 'v) world" where
  "SetAddedItemCallback f w = emit TableUnlock ((emit TableLock w)\<lparr>addedItem := f\<rparr>)"

definition SetAboutToDeleteItemCallback ::
  "callback option \<Rightarrow> ('k, 'v) world \<Rightarrow> ('k, 'v) world" where
  "SetAboutToDeleteItemCallback f w =
     emit TableUnlock ((emit TableLock w)\<lparr>aboutToDeleteItem := f\<rparr>)"

definition SetLogger :: "bool \<Rightarrow> ('k, 'v) world \<Rightarrow> ('k, 'v) world" where
  "SetLogger lg w = emit TableUnlock ((emit TableLock w)\<lparr>logger := lg\<rparr>)"

definition Delete :: "'k \<Rightarrow> ('k, 'v) world \<Rightarrow> (cache_error + addr) \<times> ('k, 'v) world" where
  "Delete k w =
     (let w1 = emit (MapLoad k) (emit TableRLock w)
      in case map_of (items w1) k of
           None \<Rightarrow> (Inl ErrKeyNotFound, emit TableRUnlock w1)
         | Some r \<Rightarrow>
             (let cb = aboutToDeleteItem w1;
                  w2 = emit TableRUnlock w1;
                  w3 = (case cb of None \<Rightarrow> w2 | Some f \<Rightarrow> emit (CallAboutToDeleteItem f r) w2);
                  w4 = emit (ItemRLock r) w3;
                  w5 = (case aboutToExpire (heap w4 ! r) of
                          None \<Rightarrow> w4
                        | Some g \<Rightarrow> emit (CallAboutToExpire g r k) w4);
                  w6 = emit TableLock w5;
                  w7 = log (LogDeleting k (createdOn (heap w6 ! r)) (accessCount (heap w6 ! r))
                              (name w6)) w6;
                  w8 = emit (MapDelete k) (w7\<lparr>items := AList.delete k (items w7)\<rparr>);
                  w9 = emit TableUnlock w8
              in (Inr r, emit (ItemRUnlock r) w9)))"

text \<open>The body of the loop of \<open>expirationCheck\<close>, over the entries the \<open>range\<close> has
  still to visit; \<open>sd\<close> is \<open>smallestDuration\<close>.\<close>

fun expirationCheck_loop ::
  "instant \<Rightarrow> ('k \<times> addr) list \<Rightarrow> duration \<Rightarrow> ('k, 'v) world \<Rightarrow> duration \<times> ('k, 'v) world" where
  "expirationCheck_loop now [] sd w = (sd, w)"
| "expirationCheck_loop now ((k, a) # rest) sd w =
     (let w1 = emit (ItemRLock a) w;
          l = lifeSpan (heap w1 ! a);
          acc = accessedOn (heap w1 ! a);
          w2 = emit (ItemRUnlock a) w1
      in if l = 0 then expirationCheck_loop now rest sd w2
         else if time_Sub now acc \<ge> l
              then expirationCheck_loop now rest sd (snd (Delete k w2))
              else if sd = 0 \<or> l - time_Sub now acc < sd
                   then expirationCheck_loop now rest (l - time_Sub now acc) w2
                   else expirationCheck_loop now rest sd w2)"

definition expirationCheck :: "('k, 'v) world \<Rightarrow> ('k, 'v) world" where
  "expirationCheck w =
     (let w1 = emit TableLock (emit EnterExpirationCheck w);
          w2 = (case cleanupTimer w1 of
                  None \<Rightarrow> w1
                | Some t \<Rightarrow> emit TimerStop (w1\<lparr>cleanupTimer := Some (Timer False (delay t))\<rparr>));
          w3 = (if cleanupInterval w2 > 0
                then log (LogTriggered (cleanupInterval w2) (name w2)) w2
                else log (LogInstalled (name w2)) w2);
          its = items w3;
          w4 = emit TableUnlock w3;
          (now, w5) = time_Now w4;
          (smallestDuration, w6) = expirationCheck_loop now its 0 w5;
          w7 = emit TableLock w6;
          w8 = w7\<lparr>cleanupInterval := smallestDuration\<rparr>;
          w9 = (if smallestDuration > 0
                then emit (TimerArm smallestDuration)
                       (w8\<lparr>cleanupTimer := Some (Timer True smallestDuration)\<rparr>)
                else w8)
      in emit TableUnlock w9)"

definition Add :: "'k \<Rightarrow> duration \<Rightarrow> 'v \<Rightarrow> ('k, 'v) world \<Rightarrow> addr \<times> ('k, 'v) world" where
  "Add k l d w =
     (let (it, w1) = CreateCacheItem k l d w;
          (a, w2) = new_item it w1;
          w3 = emit TableLock w2;
          w4 = log (LogAdding k l (name w3)) w3;
          w5 = emit (MapStore k a) (w4\<lparr>items := AList.update k a (items w4)\<rparr>);
          expDur = cleanupInterval w5;
          cb = addedItem w5;
          w6 = emit TableUnlock w5;
          w7 = (case cb of None \<Rightarrow> w6 | Some f \<Rightarrow> emit (CallAddedItem f a) w6);
          w8 = (if l > 0 \<and> (expDur = 0 \<or> l < expDur) then expirationCheck w7 else w7)
      in (a, w8))"

definition Exists :: "'k \<Rightarrow> ('k, 'v) world \<Rightarrow> bool \<times> ('k, 'v) world" where
  "Exists k w =
     (let w1 = emit (MapLoad k) (emit TableRLock w)
      in (map_of (items w1) k \<noteq> None, emit TableRUnlock w1))"

definition NotFoundAdd :: "'k \<Rightarrow> duration \<Rightarrow> 'v \<Rightarrow> ('k, 'v) world \<Rightarrow> bool \<times> ('k, 'v) world" where
  "NotFoundAdd k l d w =
     (let w1 = emit (MapLoad k) (emit TableLock w)
      in if map_of (items w1) k \<noteq> None then (False, emit TableUnlock w1)
         else
           (let (it, w2) = CreateCacheItem k l d w1;
                (a, w3) = new_item it w2;
                w4 = log (LogAdding k l (name w3)) w3;
                w5 = emit (MapStore k a) (w4\<lparr>items := AList.update k a (items w4)\<rparr>);
                expDur = cleanupInterval w5;
                cb = addedItem w5;
                w6 = emit TableUnlock w5;
                w7 = (case cb of None \<Rightarrow> w6 | Some f \<Rightarrow> emit (CallAddedItem f a) w6);
                w8 = (if l > 0 \<and> (expDur = 0 \<or> l < expDur) then expirationCheck w7 else w7)
            in (True, w8)))"

definition Value ::
  "'k \<Rightarrow> 'v list \<Rightarrow> ('k, 'v) world \<Rightarrow> (cache_error + addr) \<times> ('k, 'v) world" where
  "Value k args w =
     (let w1 = emit (MapLoad k) (emit TableRLock w);
          r = map_of (items w1) k;
          ld = loadData w1;
          w2 = emit TableRUnlock w1
      in case r of
           Some a \<Rightarrow> (Inr a, KeepAlive a w2)
         | None \<Rightarrow>
             (case ld of
                None \<Rightarrow> (Inl ErrKeyNotFound, w2)
              | Some f \<Rightarrow>
                  (let w3 = emit (CallLoadData k) w2;
                       (res, h) = f k args (clk w3) (heap w3);
                       w4 = w3\<lparr>heap := h\<rparr>
                   in case res of
                        None \<Rightarrow> (Inl ErrKeyNotFoundOrLoadable, w4)
                      | Some e \<Rightarrow>
                          (let (a, w5) = Add k (lifeSpan (heap w4 ! e)) (data (heap w4 ! e)) w4
                           in (Inr e, w5)))))"

definition Flush :: "('k, 'v) world \<Rightarrow> ('k, 'v) world" where
  "Flush w =
     (let w1 = emit TableLock w;
          w2 = log (LogFlushing (name w1)) w1;
          w3 = emit MapReset (w2\<lparr>items := []\<rparr>);
          w4 = w3\<lparr>cleanupInterval := 0\<rparr>;
          w5 = (case cleanupTimer w4 of
                  None \<Rightarrow> w4
                | Some t \<Rightarrow> emit TimerStop (w4\<lparr>cleanupTimer := Some (Timer False (delay t))\<rparr>))
      in emit TableUnlock w5)"

text \<open>\<open>sort.Sort(p)\<close> with \<open>Less(i, j) = p[i].AccessCount > p[j].AccessCount\<close>: the
  pairs by decreasing access count. Package sort leaves the order of equal pairs
  open; this is the insertion sort, which keeps it.\<close>

definition sort_Sort :: "('k \<times> int) list \<Rightarrow> ('k \<times> int) list" where
  "sort_Sort p = sort_key (\<lambda>v. - snd v) p"

fun MostAccessed_loop ::
  "int \<Rightarrow> ('k \<times> int) list \<Rightarrow> int \<Rightarrow> addr list \<Rightarrow> ('k, 'v) world \<Rightarrow> addr list \<times> ('k, 'v) world" where
  "MostAccessed_loop count [] c r w = (r, w)"
| "MostAccessed_loop count (v # rest) c r w =
     (if c \<ge> count then (r, w)
      else
        (let w1 = emit (MapLoad (fst v)) w
         in case map_of (items w1) (fst v) of
              Some item \<Rightarrow> MostAccessed_loop count rest (c + 1) (r @ [item]) w1
            | None \<Rightarrow> MostAccessed_loop count rest (c + 1) r w1))"

definition MostAccessed :: "int \<Rightarrow> ('k, 'v) world \<Rightarrow> addr list \<times> ('k, 'v) world" where
  "MostAccessed count w =
     (let w1 = emit TableRLock w;
          p = map (\<lambda>(k, v). (k, accessCount (heap w1 ! v))) (items w1);
          p1 = sort_Sort p;
          (r, w2) = MostAccessed_loop count p1 0 [] w1
      in (r, emit TableRUnlock w2))"

text \<open>The pending timer fires: its function starts \<open>expirationCheck\<close>.\<close>

definition timer_fires :: "('k, 'v) world \<Rightarrow> ('k, 'v) world" where
  "timer_fires w =
     (case cleanupTimer w of
        None \<Rightarrow> w
      | Some t \<Rightarrow>
          if pending t then expirationCheck (w\<lparr>cleanupTimer := Some (Timer False (delay t))\<rparr>)
          else w)"

section \<open>The operations of the package, as one interface\<close>

text \<open>A key as a caller gives it: an \<open>interface{}\<close> whose dynamic type Go can hash (and
  compare), or not.\<close>

datatype 'k iface = Hashable 'k | Unhashable

text \<open>An operation ends with a result, with one of the two errors, or with a panic of
  the runtime.\<close>

datatype failure = Failed cache_error | Panicked

text \<open>
  Given a key Go cannot hash, a method panics at its first index expression on the items
  map ("hash of unhashable type"). These are the states at that point:
  \<^item> \<open>Add\<close> has made the item (and read the clock for it; nothing refers to the item),
    taken the lock and given its line to the logger; the lock is never released;
  \<^item> \<open>NotFoundAdd\<close> has taken the lock, \<open>Delete\<close> and \<open>Value\<close> the read lock, and do not
    release it;
  \<^item> \<open>Exists\<close> has taken the read lock, and its deferred \<open>RUnlock\<close> runs.
\<close>

definition Add_unhashable :: "duration \<Rightarrow> ('k, 'v) world \<Rightarrow> ('k, 'v) world" where
  "Add_unhashable l w =
     (let (t, w1) = time_Now w;
          w3 = emit TableLock w1
      in log (LogAddingUnhashable l (name w3)) w3)"

definition NotFoundAdd_unhashable :: "('k, 'v) world \<Rightarrow> ('k, 'v) world" where
  "NotFoundAdd_unhashable w = emit TableLock w"

definition Delete_unhashable :: "('k, 'v) world \<Rightarrow> ('k, 'v) world" where
  "Delete_unhashable w = emit TableRLock w"

definition Value_unhashable :: "('k, 'v) world \<Rightarrow> ('k, 'v) world" where
  "Value_unhashable w = emit TableRLock w"

definition Exists_unhashable :: "('k, 'v) world \<Rightarrow> ('k, 'v) world" where
  "Exists_unhashable w = emit TableRUnlock (emit TableRLock w)"

datatype ('k, 'v) operation =
    OpAdd "'k iface" duration 'v
  | OpNotFoundAdd "'k iface" duration 'v
  | OpDelete "'k iface"
  | OpValue "'k iface" "'v list"
  | OpExists "'k iface"
  | OpCount
  | OpForeach callback
  | OpFlush
  | OpMostAccessed int
  | OpSetDataLoader "('k, 'v) loader option"
  | OpSetAddedItemCallback "callback option"
  | OpSetAboutToDeleteItemCallback "callback option"
  | OpSetLogger bool
  | OpKeepAlive addr
  | OpSetAboutToExpireCallback addr "callback option"
  | OpLifeSpan addr
  | OpAccessedOn addr
  | OpCreatedOn addr
  | OpAccessCount addr
  | OpKey addr
  | OpData addr
  | OpTimerFires

datatype ('k, 'v) result =
    RItem addr
  | RItems "addr list"
  | RBool bool
  | RInt int
  | RKey 'k
  | RData 'v
  | RUnit

fun perform ::
  "('k, 'v) operation \<Rightarrow> ('k, 'v) world \<Rightarrow> (failure + ('k, 'v) result) \<times> ('k, 'v) world" where
  "perform (OpAdd Unhashable l d) w = (Inl Panicked, Add_unhashable l w)"
| "perform (OpAdd (Hashable k) l d) w = (let (a, w1) = Add k l d w in (Inr (RItem a), w1))"
| "perform (OpNotFoundAdd Unhashable l d) w = (Inl Panicked, NotFoundAdd_unhashable w)"
| "perform (OpNotFoundAdd (Hashable k) l d) w =
     (let (b, w1) = NotFoundAdd k l d w in (Inr (RBool b), w1))"
| "perform (OpDelete Unhashable) w = (Inl Panicked, Delete_unhashable w)"
| "perform (OpDelete (Hashable k)) w =
     (let (r, w1) = Delete k w
      in (case r of Inl e \<Rightarrow> Inl (Failed e) | Inr a \<Rightarrow> Inr (RItem a), w1))"
| "perform (OpValue Unhashable args) w = (Inl Panicked, Value_unhashable w)"
| "perform (OpValue (Hashable k) args) w =
     (let (r, w1) = Value k args w
      in (case r of Inl e \<Rightarrow> Inl (Failed e) | Inr a \<Rightarrow> Inr (RItem a), w1))"
| "perform (OpExists Unhashable) w = (Inl Panicked, Exists_unhashable w)"
| "perform (OpExists (Hashable k)) w = (let (b, w1) = Exists k w in (Inr (RBool b), w1))"
| "perform OpCount w = (let (n, w1) = Count w in (Inr (RInt (int n)), w1))"
| "perform (OpForeach f) w = (Inr RUnit, Foreach f w)"
| "perform OpFlush w = (Inr RUnit, Flush w)"
| "perform (OpMostAccessed n) w = (let (r, w1) = MostAccessed n w in (Inr (RItems r), w1))"
| "perform (OpSetDataLoader f) w = (Inr RUnit, SetDataLoader f w)"
| "perform (OpSetAddedItemCallback f) w = (Inr RUnit, SetAddedItemCallback f w)"
| "perform (OpSetAboutToDeleteItemCallback f) w = (Inr RUnit, SetAboutToDeleteItemCallback f w)"
| "perform (OpSetLogger lg) w = (Inr RUnit, SetLogger lg w)"
| "perform (OpKeepAlive a) w = (Inr RUnit, KeepAlive a w)"
| "perform (OpSetAboutToExpireCallback a f) w = (Inr RUnit, SetAboutToExpireCallback a f w)"
| "perform (OpLifeSpan a) w = (let (l, w1) = LifeSpan a w in (Inr (RInt l), w1))"
| "perform (OpAccessedOn a) w = (let (t, w1) = AccessedOn a w in (Inr (RInt t), w1))"
| "perform (OpCreatedOn a) w = (let (t, w1) = CreatedOn a w in (Inr (RInt t), w1))"
| "perform (OpAccessCount a) w = (let (n, w1) = AccessCount a w in (Inr (RInt n), w1))"
| "perform (OpKey a) w = (let (k, w1) = Key a w in (Inr (RKey k), w1))"
| "perform (OpData a) w = (let (d, w1) = Data a w in (Inr (RData d), w1))"
| "perform OpTimerFires w = (Inr RUnit, timer_fires w)"





text \<open>A sequence of operations on a table made by \<open>Cache\<close>, one after the other; a
  panic ends it.\<close>

fun run :: "('k, 'v) operation list \<Rightarrow> ('k, 'v) world \<Rightarrow> ('k, 'v) world" where
  "run [] w = w"
| "run (op # ops) w =
     (if fst (perform op w) = Inl Panicked then snd (perform op w)
      else run ops (snd (perform op w)))"

section \<open>Definitions for the statements\<close>

text \<open>What the scan computes for an entry \<open>e = (key, item)\<close> of the range, from the
  instant \<open>now\<close> it has read: the idle time \<open>now.Sub(accessedOn)\<close>, its test for
  deleting the entry, and the duration it compares with \<open>smallestDuration\<close> otherwise.\<close>

definition idle :: "instant \<Rightarrow> ('k, 'v) CacheItem list \<Rightarrow> addr \<Rightarrow> duration" where
  "idle now h a = time_Sub now (accessedOn (h ! a))"

definition expired :: "instant \<Rightarrow> ('k, 'v) CacheItem list \<Rightarrow> 'k \<times> addr \<Rightarrow> bool" where
  "expired now h e = (lifeSpan (h ! snd e) \<noteq> 0 \<and> lifeSpan (h ! snd e) \<le> idle now h (snd e))"

definition remaining :: "instant \<Rightarrow> ('k, 'v) CacheItem list \<Rightarrow> 'k \<times> addr \<Rightarrow> duration" where
  "remaining now h e = lifeSpan (h ! snd e) - idle now h (snd e)"

text \<open>The events of the delete path: the two callbacks and the removal from the map;
  and those that \<open>Delete\<close> adds to the trace for an entry, given the callback of the table
  and the heap.\<close>

fun is_delete_path :: "'k event \<Rightarrow> bool" where
  "is_delete_path (CallAboutToDeleteItem f a) = True"
| "is_delete_path (CallAboutToExpire g a k) = True"
| "is_delete_path (MapDelete k) = True"
| "is_delete_path _ = False"

definition delete_path ::
  "callback option \<Rightarrow> ('k, 'v) CacheItem list \<Rightarrow> 'k \<times> addr \<Rightarrow> 'k event list" where
  "delete_path cb h e =
     (case cb of None \<Rightarrow> [] | Some f \<Rightarrow> [CallAboutToDeleteItem f (snd e)])
     @ (case aboutToExpire (h ! snd e) of
          None \<Rightarrow> [] | Some g \<Rightarrow> [CallAboutToExpire g (snd e) (fst e)])
     @ [MapDelete (fst e)]"

text \<open>The entries whose life span is running: not immortal and not expired.\<close>

definition ticking :: "instant \<Rightarrow> ('k, 'v) CacheItem list \<Rightarrow> 'k \<times> addr \<Rightarrow> bool" where
  "ticking now h e = (lifeSpan (h ! snd e) \<noteq> 0 \<and> \<not> expired now h e)"

text \<open>How many times \<open>expirationCheck\<close> has been entered.\<close>

definition scans :: "('k, 'v) world \<Rightarrow> nat" where
  "scans w = count_list (trace w) EnterExpirationCheck"

text \<open>The events that are calls of functions of the user.\<close>

fun is_call :: "'k event \<Rightarrow> bool" where
  "is_call (CallLoadData k) = True"
| "is_call (CallAddedItem f a) = True"
| "is_call (CallAboutToDeleteItem f a) = True"
| "is_call (CallAboutToExpire g a k) = True"
| "is_call (CallTrans f k a) = True"
| "is_call _ = False"

text \<open>A timer is pending.\<close>

definition armed :: "('k, 'v) world \<Rightarrow> bool" where
  "armed w = (case cleanupTimer w of None \<Rightarrow> False | Some t \<Rightarrow> pending t)"

text \<open>The state in which \<open>Add\<close> and \<open>NotFoundAdd\<close> decide about the scan: the new item
  is in the heap, its address is in the map under the key, the clock has been read once,
  and the trace has gained the events \<open>pre\<close> up to the store, the line for the logger, the
  store, the unlock and the call of \<open>addedItem\<close>.\<close>

definition stored ::
  "'k event list \<Rightarrow> 'k \<Rightarrow> duration \<Rightarrow> 'v \<Rightarrow> ('k, 'v) world \<Rightarrow> ('k, 'v) world" where
  "stored pre k l d w =
     w\<lparr>heap := heap w @
         [\<lparr>key = k, data = d, lifeSpan = l, createdOn = fst (time_Now w),
           accessedOn = fst (time_Now w), accessCount = 0, aboutToExpire = None\<rparr>],
       items := AList.update k (length (heap w)) (items w),
       clk := fst (time_Now w),
       ticks := tl (ticks w),
       trace := trace w @ pre
         @ (if logger w then [Println (LogAdding k l (name w))] else [])
         @ [MapStore k (length (heap w)), TableUnlock]
         @ (case addedItem w of None \<Rightarrow> [] | Some f \<Rightarrow> [CallAddedItem f (length (heap w))])\<rparr>"

text \<open>The test of \<open>Add\<close> and \<open>NotFoundAdd\<close> for running the scan.\<close>

definition scan_due :: "duration \<Rightarrow> ('k, 'v) world \<Rightarrow> bool" where
  "scan_due l w = (0 < l \<and> (cleanupInterval w = 0 \<or> l < cleanupInterval w))"

text \<open>The state with the first \<open>n\<close> events of its trace replaced by \<open>q\<close>.\<close>

definition reprefix :: "'k event list \<Rightarrow> nat \<Rightarrow> ('k, 'v) world \<Rightarrow> ('k, 'v) world" where
  "reprefix q n w = w\<lparr>trace := q @ drop n (trace w)\<rparr>"

text \<open>The calls of the delete path that are made for the item at address \<open>r\<close>.\<close>

fun about :: "addr \<Rightarrow> 'k event \<Rightarrow> bool" where
  "about r (CallAboutToDeleteItem f a) = (a = r)"
| "about r (CallAboutToExpire g a k) = (a = r)"
| "about r _ = False"

text \<open>The invariant of the items: an item was made no later than it was last accessed,
  no time stamp is ahead of the clock, and the access count is an \<open>int64\<close>.\<close>

definition item_ok :: "instant \<Rightarrow> ('k, 'v) CacheItem \<Rightarrow> bool" where
  "item_ok c it =
     (createdOn it \<le> accessedOn it \<and> accessedOn it \<le> c \<and>
      - (2 ^ 63) \<le> accessCount it \<and> accessCount it < 2 ^ 63)"

definition heap_ok :: "instant \<Rightarrow> ('k, 'v) CacheItem list \<Rightarrow> bool" where
  "heap_ok c h = (\<forall>it\<in>set h. item_ok c it)"

text \<open>Every item of the first heap is still there in the second, with an access count
  that is no smaller.\<close>

definition grows :: "('k, 'v) CacheItem list \<Rightarrow> ('k, 'v) CacheItem list \<Rightarrow> bool" where
  "grows h h1 = (length h \<le> length h1 \<and> (\<forall>a<length h. accessCount (h ! a) \<le> accessCount (h1 ! a)))"

text \<open>No access count of the heap stands at the largest \<open>int64\<close>; and this before each
  operation of a run.\<close>

definition below_wrap :: "('k, 'v) CacheItem list \<Rightarrow> bool" where
  "below_wrap h = (\<forall>it\<in>set h. accessCount it < 2 ^ 63 - 1)"

fun no_wrap :: "('k, 'v) operation list \<Rightarrow> ('k, 'v) world \<Rightarrow> bool" where
  "no_wrap [] w = True"
| "no_wrap (op # ops) w =
     (below_wrap (heap w) \<and>
      (fst (perform op w) = Inl Panicked \<or> no_wrap ops (snd (perform op w))))"

text \<open>What is assumed of a loader, which is code of the user: it keeps the invariant
  and lowers no access count, as a loader does that only makes items with
  \<open>CreateCacheItem\<close>.\<close>

definition loader_ok :: "('k, 'v) loader \<Rightarrow> bool" where
  "loader_ok f =
     (\<forall>k args c h. heap_ok c h \<longrightarrow>
        heap_ok c (snd (f k args c h)) \<and> grows h (snd (f k args c h)))"

definition world_ok :: "('k, 'v) world \<Rightarrow> bool" where
  "world_ok w =
     (heap_ok (clk w) (heap w) \<and> (case loadData w of None \<Rightarrow> True | Some f \<Rightarrow> loader_ok f))"

fun op_ok :: "('k, 'v) operation \<Rightarrow> bool" where
  "op_ok (OpSetDataLoader (Some f)) = loader_ok f"
| "op_ok _ = True"

text \<open>The shape of a table: the map lists no key twice, no address twice (each entry
  is an item of its own), and every address is one of the heap.\<close>

definition table_ok :: "('k, 'v) world \<Rightarrow> bool" where
  "table_ok w =
     (distinct (map fst (items w)) \<and> distinct (map snd (items w)) \<and>
      (\<forall>e\<in>set (items w). snd e < length (heap w)))"

text \<open>A table with three entries for the examples: \<open>a\<close> never expires, \<open>b\<close> has been
  idle for longer than its life span once the clock is read again, \<open>c\<close> has not.\<close>

definition example :: "(string, string) world" where
  "example =
     \<lparr>heap =
        [\<lparr>key = ''a'', data = ''x'', lifeSpan = 0, createdOn = 0, accessedOn = 0,
          accessCount = 2, aboutToExpire = None\<rparr>,
         \<lparr>key = ''b'', data = ''y'', lifeSpan = 5, createdOn = 1, accessedOn = 2,
          accessCount = 1, aboutToExpire = Some 7\<rparr>,
         \<lparr>key = ''c'', data = ''z'', lifeSpan = 20, createdOn = 3, accessedOn = 4,
          accessCount = 0, aboutToExpire = None\<rparr>],
      name = ''myCache'',
      items = [(''a'', 0), (''b'', 1), (''c'', 2)],
      cleanupTimer = Some (Timer True 3),
      cleanupInterval = 3,
      logger = False,
      loadData = None,
      addedItem = Some 1,
      aboutToDeleteItem = Some 2,
      clk = 8,
      ticks = [2, 1],
      trace = []\<rparr>"

text \<open>A loader for the examples: it makes an item with the given life span, five
  accesses and a callback of its own, and returns its address.\<close>

definition example_loader :: "duration \<Rightarrow> (string, string) loader" where
  "example_loader l k args c h =
     (Some (length h),
      h @ [\<lparr>key = k, data = ''loaded'', lifeSpan = l, createdOn = c, accessedOn = c,
            accessCount = 5, aboutToExpire = Some 9\<rparr>])"

definition loading :: "duration \<Rightarrow> (string, string) world" where
  "loading l = example\<lparr>loadData := Some (example_loader l)\<rparr>"

text \<open>The table of the examples when the entry \<open>a\<close> has been accessed \<open>2^63 - 1\<close>
  times.\<close>

definition brimful :: "(string, string) world" where
  "brimful =
     example\<lparr>heap := (heap example)[0 := (heap example ! 0)\<lparr>accessCount := 2 ^ 63 - 1\<rparr>]\<rparr>"


section \<open>Lemmas\<close>

subsection \<open>The environment\<close>

lemma emit_fields [simp]:
  "heap (emit e w) = heap w" "name (emit e w) = name w" "items (emit e w) = items w"
  "cleanupTimer (emit e w) = cleanupTimer w" "cleanupInterval (emit e w) = cleanupInterval w"
  "logger (emit e w) = logger w" "loadData (emit e w) = loadData w"
  "addedItem (emit e w) = addedItem w" "aboutToDeleteItem (emit e w) = aboutToDeleteItem w"
  "clk (emit e w) = clk w" "ticks (emit e w) = ticks w"
  "trace (emit e w) = trace w @ [e]"
  by (simp_all add: emit_def)

lemma log_fields [simp]:
  "heap (log v w) = heap w" "name (log v w) = name w" "items (log v w) = items w"
  "cleanupTimer (log v w) = cleanupTimer w" "cleanupInterval (log v w) = cleanupInterval w"
  "logger (log v w) = logger w" "loadData (log v w) = loadData w"
  "addedItem (log v w) = addedItem w" "aboutToDeleteItem (log v w) = aboutToDeleteItem w"
  "clk (log v w) = clk w" "ticks (log v w) = ticks w"
  "trace (log v w) = trace w @ (if logger w then [Println v] else [])"
  by (simp_all add: log_def)

lemma time_Now_fields [simp]:
  "heap (snd (time_Now w)) = heap w" "name (snd (time_Now w)) = name w"
  "items (snd (time_Now w)) = items w"
  "cleanupTimer (snd (time_Now w)) = cleanupTimer w"
  "cleanupInterval (snd (time_Now w)) = cleanupInterval w"
  "logger (snd (time_Now w)) = logger w" "loadData (snd (time_Now w)) = loadData w"
  "addedItem (snd (time_Now w)) = addedItem w"
  "aboutToDeleteItem (snd (time_Now w)) = aboutToDeleteItem w"
  "clk (snd (time_Now w)) = fst (time_Now w)" "ticks (snd (time_Now w)) = tl (ticks w)"
  "trace (snd (time_Now w)) = trace w"
  by (simp_all add: time_Now_def split: list.splits)

lemma time_Now_ge: "clk w \<le> fst (time_Now w)"
  by (simp add: time_Now_def split: list.splits)

subsection \<open>Delete and Flush\<close>

lemma Delete_present:
  assumes "map_of (items w) k = Some r"
  shows "Delete k w =
     (Inr r,
      w\<lparr>items := AList.delete k (items w),
        trace := trace w @ [TableRLock, MapLoad k, TableRUnlock]
          @ (case aboutToDeleteItem w of None \<Rightarrow> [] | Some f \<Rightarrow> [CallAboutToDeleteItem f r])
          @ [ItemRLock r]
          @ (case aboutToExpire (heap w ! r) of None \<Rightarrow> [] | Some g \<Rightarrow> [CallAboutToExpire g r k])
          @ [TableLock]
          @ (if logger w
             then [Println (LogDeleting k (createdOn (heap w ! r)) (accessCount (heap w ! r)) (name w))]
             else [])
          @ [MapDelete k, TableUnlock, ItemRUnlock r]\<rparr>)"
  using assms
  by (simp add: Delete_def Let_def emit_def log_def split: option.splits)

lemma Delete_absent:
  assumes "map_of (items w) k = None"
  shows "Delete k w = (Inl ErrKeyNotFound, w\<lparr>trace := trace w @ [TableRLock, MapLoad k, TableRUnlock]\<rparr>)"
  using assms
  by (simp add: Delete_def Let_def emit_def)

lemma Flush_eq:
  "Flush w = w\<lparr>items := [], cleanupInterval := 0,
       cleanupTimer := (case cleanupTimer w of None \<Rightarrow> None | Some t \<Rightarrow> Some (Timer False (delay t))),
       trace := trace w @ [TableLock] @ (if logger w then [Println (LogFlushing (name w))] else [])
          @ [MapReset] @ (case cleanupTimer w of None \<Rightarrow> [] | Some t \<Rightarrow> [TimerStop]) @ [TableUnlock]\<rparr>"
  by (simp add: Flush_def Let_def emit_def log_def split: option.splits)

lemma Delete_fields [simp]:
  "heap (snd (Delete k w)) = heap w" "name (snd (Delete k w)) = name w"
  "items (snd (Delete k w)) = AList.delete k (items w)"
  "cleanupTimer (snd (Delete k w)) = cleanupTimer w"
  "cleanupInterval (snd (Delete k w)) = cleanupInterval w"
  "logger (snd (Delete k w)) = logger w" "loadData (snd (Delete k w)) = loadData w"
  "addedItem (snd (Delete k w)) = addedItem w"
  "aboutToDeleteItem (snd (Delete k w)) = aboutToDeleteItem w"
  "clk (snd (Delete k w)) = clk w" "ticks (snd (Delete k w)) = ticks w"
  by (cases "map_of (items w) k"; simp add: Delete_present Delete_absent map_of_eq_None_iff)+

subsection \<open>The loop of the scan\<close>

lemma loop_frame:
  "heap (snd (expirationCheck_loop now its sd w)) = heap w \<and>
   name (snd (expirationCheck_loop now its sd w)) = name w \<and>
   cleanupTimer (snd (expirationCheck_loop now its sd w)) = cleanupTimer w \<and>
   cleanupInterval (snd (expirationCheck_loop now its sd w)) = cleanupInterval w \<and>
   logger (snd (expirationCheck_loop now its sd w)) = logger w \<and>
   loadData (snd (expirationCheck_loop now its sd w)) = loadData w \<and>
   addedItem (snd (expirationCheck_loop now its sd w)) = addedItem w \<and>
   aboutToDeleteItem (snd (expirationCheck_loop now its sd w)) = aboutToDeleteItem w \<and>
   clk (snd (expirationCheck_loop now its sd w)) = clk w \<and>
   ticks (snd (expirationCheck_loop now its sd w)) = ticks w"
proof (induction its arbitrary: sd w)
  case Nil
  then show ?case by simp
next
  case (Cons e rest)
  obtain k a where e: "e = (k, a)" by (cases e)
  show ?case
    unfolding e expirationCheck_loop.simps Let_def
    by (simp add: Cons)
qed

lemma loop_fields [simp]:
  "heap (snd (expirationCheck_loop now its sd w)) = heap w"
  "name (snd (expirationCheck_loop now its sd w)) = name w"
  "cleanupTimer (snd (expirationCheck_loop now its sd w)) = cleanupTimer w"
  "cleanupInterval (snd (expirationCheck_loop now its sd w)) = cleanupInterval w"
  "logger (snd (expirationCheck_loop now its sd w)) = logger w"
  "loadData (snd (expirationCheck_loop now its sd w)) = loadData w"
  "addedItem (snd (expirationCheck_loop now its sd w)) = addedItem w"
  "aboutToDeleteItem (snd (expirationCheck_loop now its sd w)) = aboutToDeleteItem w"
  "clk (snd (expirationCheck_loop now its sd w)) = clk w"
  "ticks (snd (expirationCheck_loop now its sd w)) = ticks w"
  using loop_frame [of now its sd w] by simp_all

lemma loop_step:
  "expirationCheck_loop now ((k, a) # rest) sd w =
     (let w2 = emit (ItemRUnlock a) (emit (ItemRLock a) w)
      in if expired now (heap w) (k, a) then expirationCheck_loop now rest sd (snd (Delete k w2))
         else if lifeSpan (heap w ! a) = 0 then expirationCheck_loop now rest sd w2
         else expirationCheck_loop now rest
                (if sd = 0 \<or> lifeSpan (heap w ! a) - idle now (heap w) a < sd
                 then lifeSpan (heap w ! a) - idle now (heap w) a else sd) w2)"
  by (simp add: Let_def expired_def idle_def)

declare expirationCheck_loop.simps(2) [simp del]

lemma loop_items:
  "items (snd (expirationCheck_loop now its sd w)) =
     filter (\<lambda>p. fst p \<notin> fst ` {q \<in> set its. expired now (heap w) q}) (items w)"
proof (induction its arbitrary: sd w)
  case Nil
  then show ?case by simp
next
  case (Cons e rest)
  obtain k a where e: "e = (k, a)" by (cases e)
  show ?case
  proof (cases "expired now (heap w) (k, a)")
    case True
    have "{q. (q = (k, a) \<or> q \<in> set rest) \<and> expired now (heap w) q}
            = insert (k, a) {q \<in> set rest. expired now (heap w) q}"
      using True by auto
    then show ?thesis
      unfolding e loop_step Let_def
      using True by (auto simp add: Cons AList.delete_eq case_prod_unfold intro!: filter_cong)
  next
    case False
    have "{q. (q = (k, a) \<or> q \<in> set rest) \<and> expired now (heap w) q}
            = {q \<in> set rest. expired now (heap w) q}"
      using False by auto
    then show ?thesis
      unfolding e loop_step Let_def
      using False by (simp add: Cons)
  qed
qed

lemma loop_sd:
  "fst (expirationCheck_loop now its sd w) =
     fold (\<lambda>x s. if s = 0 \<or> x < s then x else s)
       (map (remaining now (heap w)) (filter (ticking now (heap w)) its)) sd"
proof (induction its arbitrary: sd w)
  case Nil
  then show ?case by simp
next
  case (Cons e rest)
  obtain k a where e: "e = (k, a)" by (cases e)
  show ?case
    unfolding e loop_step Let_def
    by (simp add: Cons ticking_def remaining_def)
qed

lemma fold_smallest:
  fixes xs :: "int list"
  assumes "\<forall>x\<in>set xs. 0 < x" and "0 \<le> s"
  shows "fold (\<lambda>x s. if s = 0 \<or> x < s then x else s) xs s =
           (if s = 0 then (if xs = [] then 0 else Min (set xs)) else Min (insert s (set xs)))"
  using assms
proof (induction xs arbitrary: s)
  case Nil
  then show ?case by simp
next
  case (Cons x xs)
  have x: "0 < x" using Cons.prems by simp
  have xs: "\<forall>x\<in>set xs. 0 < x" using Cons.prems by simp
  show ?case
  proof (cases "s = 0 \<or> x < s")
    case True
    then have "fold (\<lambda>x s. if s = 0 \<or> x < s then x else s) (x # xs) s =
                 Min (insert x (set xs))"
      using Cons.IH [OF xs, of x] x by simp
    moreover have "s \<noteq> 0 \<Longrightarrow> Min (insert s (insert x (set xs))) = Min (insert x (set xs))"
      using True by (cases "xs = []") (auto simp: min_def)
    ultimately show ?thesis by simp
  next
    case False
    then have s: "0 < s" "s \<le> x" using Cons.prems by auto
    then have "fold (\<lambda>x s. if s = 0 \<or> x < s then x else s) (x # xs) s =
                 Min (insert s (set xs))"
      using Cons.IH [OF xs, of s] False by simp
    moreover have "Min (insert s (insert x (set xs))) = Min (insert s (set xs))"
      using s by (cases "xs = []") (auto simp: min_def insert_commute)
    ultimately show ?thesis using s by simp
  qed
qed

lemma time_Now_fst: "fst (time_Now w) = clk w + (case ticks w of [] \<Rightarrow> 0 | d # ds \<Rightarrow> int d)"
  by (simp add: time_Now_def split: list.splits)

lemma Delete_trace:
  "\<exists>evs. trace (snd (Delete k w)) = trace w @ evs \<and> EnterExpirationCheck \<notin> set evs"
  by (cases "map_of (items w) k")
     (auto simp add: Delete_present Delete_absent split: option.splits)

lemma Delete_present_path:
  assumes "map_of (items w) k = Some r"
  shows "\<exists>evs. trace (snd (Delete k w)) = trace w @ evs \<and>
           filter is_delete_path evs = delete_path (aboutToDeleteItem w) (heap w) (k, r)"
  by (auto simp add: Delete_present [OF assms] delete_path_def split: option.splits)

lemma loop_trace:
  "\<exists>evs. trace (snd (expirationCheck_loop now its sd w)) = trace w @ evs \<and>
         EnterExpirationCheck \<notin> set evs"
proof (induction its arbitrary: sd w)
  case Nil
  then show ?case by simp
next
  case (Cons e rest)
  obtain k a where e: "e = (k, a)" by (cases e)
  let ?w2 = "emit (ItemRUnlock a) (emit (ItemRLock a) w)"
  from Delete_trace [of k ?w2]
  obtain d where d: "trace (snd (Delete k ?w2)) = trace ?w2 @ d" "EnterExpirationCheck \<notin> set d"
    by (elim exE conjE)
  have A: "\<exists>evs. trace (snd (expirationCheck_loop now rest s ?w2)) = trace w @ evs \<and>
          EnterExpirationCheck \<notin> set evs" for s
  proof -
    from Cons [of s ?w2]
    obtain evs where "trace (snd (expirationCheck_loop now rest s ?w2)) = trace ?w2 @ evs"
        "EnterExpirationCheck \<notin> set evs"
      by (elim exE conjE)
    then show ?thesis by simp
  qed
  have B: "\<exists>evs. trace (snd (expirationCheck_loop now rest s (snd (Delete k ?w2)))) =
          trace w @ evs \<and> EnterExpirationCheck \<notin> set evs" for s
  proof -
    from Cons [of s "snd (Delete k ?w2)"]
    obtain evs where "trace (snd (expirationCheck_loop now rest s (snd (Delete k ?w2)))) =
          trace (snd (Delete k ?w2)) @ evs" "EnterExpirationCheck \<notin> set evs"
      by (elim exE conjE)
    then show ?thesis using d by simp
  qed
  have "expirationCheck_loop now (e # rest) sd w =
     (if expired now (heap w) (k, a) then expirationCheck_loop now rest sd (snd (Delete k ?w2))
         else if lifeSpan (heap w ! a) = 0 then expirationCheck_loop now rest sd ?w2
         else expirationCheck_loop now rest
                (if sd = 0 \<or> lifeSpan (heap w ! a) - idle now (heap w) a < sd
                 then lifeSpan (heap w ! a) - idle now (heap w) a else sd) ?w2)"
    unfolding e loop_step Let_def ..
  then show ?case
    using A B by presburger
qed

lemma loop_delete_path:
  assumes "distinct (map fst its)"
      and "\<forall>e\<in>set its. map_of (items w) (fst e) = Some (snd e)"
  shows "\<exists>evs. trace (snd (expirationCheck_loop now its sd w)) = trace w @ evs \<and>
           filter is_delete_path evs =
             concat (map (delete_path (aboutToDeleteItem w) (heap w))
                       (filter (expired now (heap w)) its))"
  using assms
proof (induction its arbitrary: sd w)
  case Nil
  then show ?case by simp
next
  case (Cons e rest)
  obtain k a where e: "e = (k, a)" by (cases e)
  let ?w2 = "emit (ItemRUnlock a) (emit (ItemRLock a) w)"
  let ?P = "delete_path (aboutToDeleteItem w) (heap w)"
  have dist: "distinct (map fst rest)" and k: "k \<notin> fst ` set rest"
    using Cons.prems(1) e by auto
  have here: "map_of (items ?w2) k = Some a"
    using Cons.prems(2) e by simp
  have rest2: "\<forall>e\<in>set rest. map_of (items ?w2) (fst e) = Some (snd e)"
    using Cons.prems(2) by simp
  have step: "expirationCheck_loop now (e # rest) sd w =
     (if expired now (heap w) (k, a) then expirationCheck_loop now rest sd (snd (Delete k ?w2))
         else if lifeSpan (heap w ! a) = 0 then expirationCheck_loop now rest sd ?w2
         else expirationCheck_loop now rest
                (if sd = 0 \<or> lifeSpan (heap w ! a) - idle now (heap w) a < sd
                 then lifeSpan (heap w ! a) - idle now (heap w) a else sd) ?w2)"
    unfolding e loop_step Let_def ..
  show ?case
  proof (cases "expired now (heap w) (k, a)")
    case True
    let ?w3 = "snd (Delete k ?w2)"
    from Delete_present_path [OF here]
    obtain d where d: "trace ?w3 = trace ?w2 @ d"
        "filter is_delete_path d = ?P (k, a)"
      by (elim exE conjE) simp
    have "\<forall>e\<in>set rest. map_of (items ?w3) (fst e) = Some (snd e)"
      using rest2 k by (auto simp add: AList.delete_conv)
    from Cons.IH [OF dist this, of sd]
    obtain evs where evs: "trace (snd (expirationCheck_loop now rest sd ?w3)) = trace ?w3 @ evs"
        "filter is_delete_path evs = concat (map ?P (filter (expired now (heap w)) rest))"
      by (elim exE conjE) simp
    have "trace (snd (expirationCheck_loop now (e # rest) sd w)) =
            trace w @ ([ItemRLock a, ItemRUnlock a] @ d @ evs)"
      using step True d evs by simp
    moreover have "filter is_delete_path ([ItemRLock a, ItemRUnlock a] @ d @ evs) =
            concat (map ?P (filter (expired now (heap w)) (e # rest)))"
      using True d evs e by simp
    ultimately show ?thesis by (intro exI [of _ "[ItemRLock a, ItemRUnlock a] @ d @ evs"]) simp
  next
    case False
    define s where "s = (if lifeSpan (heap w ! a) = 0 then sd
        else if sd = 0 \<or> lifeSpan (heap w ! a) - idle now (heap w) a < sd
             then lifeSpan (heap w ! a) - idle now (heap w) a else sd)"
    have step2: "expirationCheck_loop now (e # rest) sd w = expirationCheck_loop now rest s ?w2"
      using step False by (simp add: s_def)
    from Cons.IH [OF dist rest2, of s]
    obtain evs where evs: "trace (snd (expirationCheck_loop now rest s ?w2)) = trace ?w2 @ evs"
        "filter is_delete_path evs = concat (map ?P (filter (expired now (heap w)) rest))"
      by (elim exE conjE) simp
    have "trace (snd (expirationCheck_loop now (e # rest) sd w)) =
            trace w @ ([ItemRLock a, ItemRUnlock a] @ evs)"
      using step2 evs by simp
    moreover have "filter is_delete_path ([ItemRLock a, ItemRUnlock a] @ evs) =
            concat (map ?P (filter (expired now (heap w)) (e # rest)))"
      using False evs e by simp
    ultimately show ?thesis by (intro exI [of _ "[ItemRLock a, ItemRUnlock a] @ evs"]) simp
  qed
qed

subsection \<open>The scan\<close>

lemma time_Sub_nonneg: "u \<le> t \<Longrightarrow> 0 \<le> time_Sub t u"
  by (simp add: time_Sub_def maxDuration_def minDuration_def)

lemma expirationCheck_fields [simp]:
  "heap (expirationCheck w) = heap w" "name (expirationCheck w) = name w"
  "logger (expirationCheck w) = logger w" "loadData (expirationCheck w) = loadData w"
  "addedItem (expirationCheck w) = addedItem w"
  "aboutToDeleteItem (expirationCheck w) = aboutToDeleteItem w"
  "clk (expirationCheck w) = fst (time_Now w)" "ticks (expirationCheck w) = tl (ticks w)"
  by (simp_all add: expirationCheck_def Let_def case_prod_unfold time_Now_fst
        split: option.splits)

lemma expirationCheck_items:
  "items (expirationCheck w) =
     filter (\<lambda>p. fst p \<notin> fst ` {q \<in> set (items w). expired (fst (time_Now w)) (heap w) q})
       (items w)"
  by (simp add: expirationCheck_def Let_def case_prod_unfold time_Now_fst loop_items
        split: option.splits)

lemma expirationCheck_interval:
  "cleanupInterval (expirationCheck w) =
     fold (\<lambda>x s. if s = 0 \<or> x < s then x else s)
       (map (remaining (fst (time_Now w)) (heap w))
          (filter (ticking (fst (time_Now w)) (heap w)) (items w))) 0"
  by (simp add: expirationCheck_def Let_def case_prod_unfold time_Now_fst loop_sd
        split: option.splits)

lemma scans_emit [simp]:
  "scans (emit e w) = (if e = EnterExpirationCheck then Suc (scans w) else scans w)"
  by (simp add: scans_def)

lemma scans_log [simp]: "scans (log v w) = scans w"
  by (simp add: scans_def)

lemma scans_time_Now [simp]: "scans (snd (time_Now w)) = scans w"
  by (simp add: scans_def)

lemma scans_loop [simp]: "scans (snd (expirationCheck_loop now its sd w)) = scans w"
proof -
  from loop_trace [of now its sd w]
  obtain evs where "trace (snd (expirationCheck_loop now its sd w)) = trace w @ evs"
      "EnterExpirationCheck \<notin> set evs"
    by (elim exE conjE)
  then show ?thesis by (simp add: scans_def count_list_0_iff)
qed

lemma scans_update [simp]:
  "scans (w\<lparr>cleanupTimer := t\<rparr>) = scans w" "scans (w\<lparr>cleanupInterval := i\<rparr>) = scans w"
  "scans (w\<lparr>items := al\<rparr>) = scans w" "scans (w\<lparr>heap := h\<rparr>) = scans w"
  by (simp_all add: scans_def)

lemma scans_expirationCheck: "scans (expirationCheck w) = Suc (scans w)"
  by (simp add: expirationCheck_def Let_def case_prod_unfold split: option.splits)

lemma loop_delete_path_filter:
  assumes "distinct (map fst its)"
      and "\<forall>e\<in>set its. map_of (items w) (fst e) = Some (snd e)"
  shows "filter is_delete_path (trace (snd (expirationCheck_loop now its sd w))) =
           filter is_delete_path (trace w) @
             concat (map (delete_path (aboutToDeleteItem w) (heap w))
                       (filter (expired now (heap w)) its))"
proof -
  from loop_delete_path [OF assms, of now sd]
  obtain evs where "trace (snd (expirationCheck_loop now its sd w)) = trace w @ evs"
      "filter is_delete_path evs =
             concat (map (delete_path (aboutToDeleteItem w) (heap w))
                       (filter (expired now (heap w)) its))"
    by (elim exE conjE)
  then show ?thesis by simp
qed

lemma expirationCheck_delete_path:
  assumes "distinct (map fst (items w))"
  shows "filter is_delete_path (trace (expirationCheck w)) =
           filter is_delete_path (trace w) @
             concat (map (delete_path (aboutToDeleteItem w) (heap w))
                       (filter (expired (fst (time_Now w)) (heap w)) (items w)))"
proof -
  have "\<forall>e\<in>set (items w). map_of (items w) (fst e) = Some (snd e)"
    using assms by simp
  then show ?thesis
    using assms
    by (simp add: expirationCheck_def Let_def case_prod_unfold time_Now_fst
          loop_delete_path_filter split: option.splits)
qed

lemma expirationCheck_items_distinct:
  assumes "distinct (map fst (items w))"
  shows "items (expirationCheck w) =
           filter (\<lambda>e. \<not> expired (fst (time_Now w)) (heap w) e) (items w)"
proof -
  have "fst p \<notin> fst ` {q \<in> set (items w). expired (fst (time_Now w)) (heap w) q}
          \<longleftrightarrow> \<not> expired (fst (time_Now w)) (heap w) p"
    if "p \<in> set (items w)" for p
  proof -
    have "q = p" if "q \<in> set (items w)" "fst q = fst p" for q
      using assms that \<open>p \<in> set (items w)\<close> by (metis eq_key_imp_eq_value prod.collapse)
    then show ?thesis using that by auto
  qed
  then show ?thesis
    unfolding expirationCheck_items by (intro filter_cong) auto
qed

subsection \<open>Add and NotFoundAdd\<close>

lemma time_Now_eq:
  "time_Now w = (fst (time_Now w), w\<lparr>clk := fst (time_Now w), ticks := tl (ticks w)\<rparr>)"
  by (simp add: time_Now_def split: list.splits)

lemma CreateCacheItem_eq:
  "CreateCacheItem k l d w =
     (\<lparr>key = k, data = d, lifeSpan = l, createdOn = fst (time_Now w),
        accessedOn = fst (time_Now w), accessCount = 0, aboutToExpire = None\<rparr>,
      w\<lparr>clk := fst (time_Now w), ticks := tl (ticks w)\<rparr>)"
  unfolding CreateCacheItem_def by (subst time_Now_eq) simp

lemma Add_eq:
  "Add k l d w =
     (length (heap w),
      if scan_due l w then expirationCheck (stored [TableLock] k l d w)
      else stored [TableLock] k l d w)"
proof -
  define it :: "('a, 'b) CacheItem" where
    "it = \<lparr>key = k, data = d, lifeSpan = l, createdOn = fst (time_Now w),
            accessedOn = fst (time_Now w), accessCount = 0, aboutToExpire = None\<rparr>"
  define w1 where "w1 = w\<lparr>clk := fst (time_Now w), ticks := tl (ticks w)\<rparr>"
  define a where "a = length (heap w)"
  define w2 where "w2 = w1\<lparr>heap := heap w1 @ [it]\<rparr>"
  define w4 where "w4 = log (LogAdding k l (name (emit TableLock w2))) (emit TableLock w2)"
  define w5 where "w5 = emit (MapStore k a) (w4\<lparr>items := AList.update k a (items w4)\<rparr>)"
  define w7 where "w7 = (case addedItem w5 of
      None \<Rightarrow> emit TableUnlock w5 | Some f \<Rightarrow> emit (CallAddedItem f a) (emit TableUnlock w5))"
  have c: "CreateCacheItem k l d w = (it, w1)"
    by (simp add: CreateCacheItem_eq it_def w1_def)
  have n: "new_item it w1 = (a, w2)"
    by (simp add: new_item_def a_def w2_def w1_def)
  have A: "Add k l d w =
      (a, if 0 < l \<and> (cleanupInterval w5 = 0 \<or> l < cleanupInterval w5)
          then expirationCheck w7 else w7)"
    unfolding Add_def c n Let_def prod.case w7_def w5_def w4_def ..
  have ci: "cleanupInterval w5 = cleanupInterval w"
    by (simp add: w5_def w4_def w2_def w1_def)
  have B: "w7 = stored [TableLock] k l d w"
    by (rule world.equality)
       (simp_all add: w7_def w5_def w4_def w2_def w1_def a_def it_def stored_def
          split: option.splits)
  show ?thesis unfolding A ci B scan_due_def a_def ..
qed

lemma NotFoundAdd_absent:
  assumes "map_of (items w) k = None"
  shows "NotFoundAdd k l d w =
     (True,
      if scan_due l w then expirationCheck (stored [TableLock, MapLoad k] k l d w)
      else stored [TableLock, MapLoad k] k l d w)"
proof -
  define w0 where "w0 = emit (MapLoad k) (emit TableLock w)"
  define it :: "('a, 'b) CacheItem" where
    "it = \<lparr>key = k, data = d, lifeSpan = l, createdOn = fst (time_Now w),
            accessedOn = fst (time_Now w), accessCount = 0, aboutToExpire = None\<rparr>"
  define w1 where "w1 = w0\<lparr>clk := fst (time_Now w), ticks := tl (ticks w)\<rparr>"
  define a where "a = length (heap w)"
  define w2 where "w2 = w1\<lparr>heap := heap w1 @ [it]\<rparr>"
  define w4 where "w4 = log (LogAdding k l (name w2)) w2"
  define w5 where "w5 = emit (MapStore k a) (w4\<lparr>items := AList.update k a (items w4)\<rparr>)"
  define w7 where "w7 = (case addedItem w5 of
      None \<Rightarrow> emit TableUnlock w5 | Some f \<Rightarrow> emit (CallAddedItem f a) (emit TableUnlock w5))"
  have m: "(map_of (items w0) k \<noteq> None) = False"
    using assms by (simp add: w0_def)
  have c: "CreateCacheItem k l d w0 = (it, w1)"
    by (simp add: CreateCacheItem_eq it_def w1_def w0_def time_Now_fst)
  have n: "new_item it w1 = (a, w2)"
    by (simp add: new_item_def a_def w2_def w1_def w0_def)
  have A: "NotFoundAdd k l d w =
      (True, if 0 < l \<and> (cleanupInterval w5 = 0 \<or> l < cleanupInterval w5)
          then expirationCheck w7 else w7)"
    unfolding NotFoundAdd_def Let_def w0_def [symmetric] m if_False c n prod.case
      w7_def w5_def w4_def ..
  have ci: "cleanupInterval w5 = cleanupInterval w"
    by (simp add: w5_def w4_def w2_def w1_def w0_def)
  have B: "w7 = stored [TableLock, MapLoad k] k l d w"
    by (rule world.equality)
       (simp_all add: w7_def w5_def w4_def w2_def w1_def w0_def a_def it_def stored_def
          split: option.splits)
  show ?thesis unfolding A ci B scan_due_def ..
qed

lemma NotFoundAdd_present:
  assumes "map_of (items w) k \<noteq> None"
  shows "NotFoundAdd k l d w = (False, w\<lparr>trace := trace w @ [TableLock, MapLoad k, TableUnlock]\<rparr>)"
  using assms by (simp add: NotFoundAdd_def Let_def emit_def)


lemma stored_fields [simp]:
  "heap (stored pre k l d w) = heap w @
     [\<lparr>key = k, data = d, lifeSpan = l, createdOn = fst (time_Now w),
       accessedOn = fst (time_Now w), accessCount = 0, aboutToExpire = None\<rparr>]"
  "name (stored pre k l d w) = name w"
  "items (stored pre k l d w) = AList.update k (length (heap w)) (items w)"
  "cleanupTimer (stored pre k l d w) = cleanupTimer w"
  "cleanupInterval (stored pre k l d w) = cleanupInterval w"
  "logger (stored pre k l d w) = logger w" "loadData (stored pre k l d w) = loadData w"
  "addedItem (stored pre k l d w) = addedItem w"
  "aboutToDeleteItem (stored pre k l d w) = aboutToDeleteItem w"
  "clk (stored pre k l d w) = fst (time_Now w)" "ticks (stored pre k l d w) = tl (ticks w)"
  by (simp_all add: stored_def)

lemma scans_stored [simp]:
  "EnterExpirationCheck \<notin> set pre \<Longrightarrow> scans (stored pre k l d w) = scans w"
  by (simp add: stored_def scans_def count_list_0_iff split: option.splits)

subsection \<open>No operation reads the trace\<close>

lemma reprefix_fields [simp]:
  "heap (reprefix q n w) = heap w" "name (reprefix q n w) = name w"
  "items (reprefix q n w) = items w" "cleanupTimer (reprefix q n w) = cleanupTimer w"
  "cleanupInterval (reprefix q n w) = cleanupInterval w"
  "logger (reprefix q n w) = logger w" "loadData (reprefix q n w) = loadData w"
  "addedItem (reprefix q n w) = addedItem w"
  "aboutToDeleteItem (reprefix q n w) = aboutToDeleteItem w"
  "clk (reprefix q n w) = clk w" "ticks (reprefix q n w) = ticks w"
  "trace (reprefix q n w) = q @ drop n (trace w)"
  by (simp_all add: reprefix_def)

lemma emit_reprefix:
  "n \<le> length (trace w) \<Longrightarrow> emit e (reprefix q n w) = reprefix q n (emit e w)"
  by (simp add: reprefix_def emit_def)

lemma Delete_reprefix:
  assumes "n \<le> length (trace w)"
  shows "Delete k (reprefix q n w) = (fst (Delete k w), reprefix q n (snd (Delete k w)))"
proof (cases "map_of (items w) k")
  case None
  then show ?thesis
    using assms by (simp add: Delete_absent reprefix_def)
next
  case (Some r)
  then have "map_of (items (reprefix q n w)) k = Some r" by simp
  from Delete_present [OF this] Delete_present [OF Some] assms
  show ?thesis by (simp add: reprefix_def)
qed

lemma Delete_trace_length: "length (trace w) \<le> length (trace (snd (Delete k w)))"
  using Delete_trace [of k w] by auto

lemma loop_trace_length:
  "length (trace w) \<le> length (trace (snd (expirationCheck_loop now its sd w)))"
  using loop_trace [of now its sd w] by auto

lemma loop_reprefix:
  "n \<le> length (trace w) \<Longrightarrow>
   expirationCheck_loop now its sd (reprefix q n w) =
     (fst (expirationCheck_loop now its sd w), reprefix q n (snd (expirationCheck_loop now its sd w)))"
proof (induction its arbitrary: sd w)
  case Nil
  then show ?case by simp
next
  case (Cons e rest)
  obtain k a where e: "e = (k, a)" by (cases e)
  let ?w2 = "emit (ItemRUnlock a) (emit (ItemRLock a) w)"
  have w2: "emit (ItemRUnlock a) (emit (ItemRLock a) (reprefix q n w)) = reprefix q n ?w2"
    using Cons.prems by (simp add: emit_reprefix)
  have n2: "n \<le> length (trace ?w2)" using Cons.prems by simp
  have n3: "n \<le> length (trace (snd (Delete k ?w2)))"
    using n2 Delete_trace_length [of ?w2 k] by linarith
  show ?case
    unfolding e loop_step Let_def w2
    using Cons.IH [OF n2] Cons.IH [OF n3]
    by (simp add: Delete_reprefix [OF n2])
qed


lemma time_Now_reprefix:
  "time_Now (reprefix q n w) = (fst (time_Now w), reprefix q n (snd (time_Now w)))"
  by (simp add: time_Now_def reprefix_def split: list.splits)

lemma log_reprefix:
  "n \<le> length (trace w) \<Longrightarrow> log v (reprefix q n w) = reprefix q n (log v w)"
  by (simp add: log_def emit_reprefix)

lemma update_reprefix:
  "(reprefix q n w)\<lparr>cleanupTimer := t\<rparr> = reprefix q n (w\<lparr>cleanupTimer := t\<rparr>)"
  "(reprefix q n w)\<lparr>cleanupInterval := i\<rparr> = reprefix q n (w\<lparr>cleanupInterval := i\<rparr>)"
  by (simp_all add: reprefix_def)

lemma expirationCheck_reprefix:
  assumes "n \<le> length (trace w)"
  shows "expirationCheck (reprefix q n w) = reprefix q n (expirationCheck w)"
proof -
  define w1 where "w1 = emit TableLock (emit EnterExpirationCheck w)"
  define w2 where "w2 = (case cleanupTimer w1 of
                  None \<Rightarrow> w1
                | Some t \<Rightarrow> emit TimerStop (w1\<lparr>cleanupTimer := Some (Timer False (delay t))\<rparr>))"
  define w3 where "w3 = (if cleanupInterval w2 > 0
                then log (LogTriggered (cleanupInterval w2) (name w2)) w2
                else log (LogInstalled (name w2)) w2)"
  define w5 where "w5 = snd (time_Now (emit TableUnlock w3))"
  define now where "now = fst (time_Now (emit TableUnlock w3))"
  define r where "r = expirationCheck_loop now (items w3) 0 w5"
  define w8 where "w8 = (emit TableLock (snd r))\<lparr>cleanupInterval := fst r\<rparr>"
  define w9 where "w9 = (if fst r > 0
                then emit (TimerArm (fst r)) (w8\<lparr>cleanupTimer := Some (Timer True (fst r))\<rparr>)
                else w8)"
  have E: "expirationCheck w = emit TableUnlock w9"
    unfolding expirationCheck_def Let_def case_prod_unfold
      w9_def w8_def r_def now_def w5_def w3_def w2_def w1_def ..
  define v1 where "v1 = emit TableLock (emit EnterExpirationCheck (reprefix q n w))"
  define v2 where "v2 = (case cleanupTimer v1 of
                  None \<Rightarrow> v1
                | Some t \<Rightarrow> emit TimerStop (v1\<lparr>cleanupTimer := Some (Timer False (delay t))\<rparr>))"
  define v3 where "v3 = (if cleanupInterval v2 > 0
                then log (LogTriggered (cleanupInterval v2) (name v2)) v2
                else log (LogInstalled (name v2)) v2)"
  define v5 where "v5 = snd (time_Now (emit TableUnlock v3))"
  define now' where "now' = fst (time_Now (emit TableUnlock v3))"
  define r' where "r' = expirationCheck_loop now' (items v3) 0 v5"
  define v8 where "v8 = (emit TableLock (snd r'))\<lparr>cleanupInterval := fst r'\<rparr>"
  define v9 where "v9 = (if fst r' > 0
                then emit (TimerArm (fst r')) (v8\<lparr>cleanupTimer := Some (Timer True (fst r'))\<rparr>)
                else v8)"
  have E': "expirationCheck (reprefix q n w) = emit TableUnlock v9"
    unfolding expirationCheck_def Let_def case_prod_unfold
      v9_def v8_def r'_def now'_def v5_def v3_def v2_def v1_def ..
  have n1: "n \<le> length (trace w1)" using assms by (simp add: w1_def)
  have 1: "v1 = reprefix q n w1"
    using assms by (simp add: v1_def w1_def emit_reprefix)
  have n2: "n \<le> length (trace w2)" using n1 by (simp add: w2_def split: option.splits)
  have 2: "v2 = reprefix q n w2"
    using n1 by (simp add: v2_def w2_def 1 emit_reprefix update_reprefix split: option.splits)
  have n3: "n \<le> length (trace w3)" using n2 by (simp add: w3_def)
  have 3: "v3 = reprefix q n w3"
    using n2 by (simp add: v3_def w3_def 2 log_reprefix)
  have n5: "n \<le> length (trace w5)" using n3 by (simp add: w5_def)
  have 5: "v5 = reprefix q n w5" "now' = now"
    using n3 by (simp_all add: v5_def w5_def now'_def now_def 3 emit_reprefix time_Now_reprefix)
  have r: "fst r' = fst r" "snd r' = reprefix q n (snd r)"
    using n5 by (simp_all add: r'_def r_def 5 3 loop_reprefix)
  have n6: "n \<le> length (trace (snd r))"
    using n5 loop_trace_length [of w5 now "items w3" 0] by (simp add: r_def)
  have 8: "v8 = reprefix q n w8"
    using n6 by (simp add: v8_def w8_def r emit_reprefix update_reprefix)
  have n8: "n \<le> length (trace w8)" using n6 by (simp add: w8_def)
  have 9: "v9 = reprefix q n w9"
    using n8 by (simp add: v9_def w9_def r 8 emit_reprefix update_reprefix)
  have n9: "n \<le> length (trace w9)" using n8 by (simp add: w9_def)
  show ?thesis
    unfolding E E' 9 using n9 by (simp add: emit_reprefix)
qed


lemma expirationCheck_trace:
  "\<exists>evs. trace (expirationCheck w) = trace w @ evs"
proof -
  define w4 where "w4 = emit TableUnlock
     (let w1 = emit TableLock (emit EnterExpirationCheck w);
          w2 = (case cleanupTimer w1 of
                  None \<Rightarrow> w1
                | Some t \<Rightarrow> emit TimerStop (w1\<lparr>cleanupTimer := Some (Timer False (delay t))\<rparr>))
      in (if cleanupInterval w2 > 0
                then log (LogTriggered (cleanupInterval w2) (name w2)) w2
                else log (LogInstalled (name w2)) w2))"
  define r where "r = expirationCheck_loop (fst (time_Now w4)) (items w4) 0 (snd (time_Now w4))"
  have 4: "\<exists>evs. trace w4 = trace w @ evs"
    by (simp add: w4_def Let_def split: option.splits)
  from loop_trace [of "fst (time_Now w4)" "items w4" 0 "snd (time_Now w4)"]
  have 6: "\<exists>evs. trace (snd r) = trace w4 @ evs"
    by (auto simp add: r_def)
  have "expirationCheck w =
      emit TableUnlock
        (if fst r > 0
         then emit (TimerArm (fst r))
                ((emit TableLock (snd r))\<lparr>cleanupInterval := fst r,
                    cleanupTimer := Some (Timer True (fst r))\<rparr>)
         else (emit TableLock (snd r))\<lparr>cleanupInterval := fst r\<rparr>)"
    unfolding expirationCheck_def Let_def case_prod_unfold r_def w4_def
    by simp
  then have "\<exists>evs. trace (expirationCheck w) = trace (snd r) @ evs"
    by simp
  with 4 6 show ?thesis by (elim exE) simp
qed



lemma stored_reprefix:
  "stored [TableLock, MapLoad k] k l d w =
     reprefix (trace w @ [TableLock, MapLoad k]) (Suc (length (trace w)))
       (stored [TableLock] k l d w)"
  by (rule world.equality) (simp_all add: stored_def reprefix_def)

lemma stored_trace_length: "length (trace w) + length pre \<le> length (trace (stored pre k l d w))"
  by (simp add: stored_def)



subsection \<open>The key and the old entry after Add\<close>

lemma about_delete_path: "filter (about r) (filter is_delete_path tr) = filter (about r) tr"
proof -
  have "(is_delete_path e \<and> about r e) = about r e" for e :: "'a event"
    by (cases e) simp_all
  then show ?thesis by (simp add: conj_commute)
qed

lemma about_delete_path_other:
  "snd e \<noteq> r \<Longrightarrow> filter (about r) (delete_path cb h e) = []"
  by (simp add: delete_path_def split: option.splits)

lemma expirationCheck_about:
  assumes "distinct (map fst (items w))" and "r \<notin> snd ` set (items w)"
  shows "filter (about r) (trace (expirationCheck w)) = filter (about r) (trace w)"
proof -
  let ?now = "fst (time_Now w)"
  have "filter (about r) (delete_path (aboutToDeleteItem w) (heap w) e) = []"
    if "e \<in> set (items w)" for e
    using that assms(2) by (intro about_delete_path_other) auto
  then have none: "filter (about r)
      (concat (map (delete_path (aboutToDeleteItem w) (heap w))
                 (filter (expired ?now (heap w)) (items w)))) = []"
    by (simp add: filter_concat)
  have "filter (about r) (trace (expirationCheck w)) =
          filter (about r) (filter is_delete_path (trace (expirationCheck w)))"
    by (simp only: about_delete_path)
  also have "\<dots> = filter (about r) (filter is_delete_path (trace w)) @ []"
    unfolding expirationCheck_delete_path [OF assms(1)] filter_append none ..
  also have "\<dots> = filter (about r) (trace w)"
    by (simp only: about_delete_path append_Nil2)
  finally show ?thesis .
qed

lemma map_of_filter_distinct:
  "distinct (map fst al) \<Longrightarrow> map_of al k = Some a \<Longrightarrow>
   map_of (filter P al) k = (if P (k, a) then Some a else None)"
proof (induction al)
  case Nil
  then show ?case by simp
next
  case (Cons x al)
  obtain k' a' where x: "x = (k', a')" by (cases x)
  show ?case
  proof (cases "k' = k")
    case True
    then have "a' = a" using Cons.prems x by simp
    moreover have "map_of (filter P al) k = None"
      using Cons.prems(1) x True by (auto simp add: map_of_eq_None_iff)
    ultimately show ?thesis using x True by simp
  next
    case False
    then show ?thesis using Cons x by simp
  qed
qed

lemma set_update_subset:
  "distinct (map fst al) \<Longrightarrow> e \<in> set (AList.update k v al) \<Longrightarrow>
   e = (k, v) \<or> (e \<in> set al \<and> fst e \<noteq> k)"
  by (induction al) (force split: if_splits)+

lemma Add_key_after:
  assumes "distinct (map fst (items w))"
  shows "map_of (items (snd (Add k l d w))) k =
           (if scan_due l w \<and>
               l \<le> time_Sub (fst (time_Now (snd (time_Now w)))) (fst (time_Now w))
            then None else Some (length (heap w)))"
proof (cases "scan_due l w")
  case False
  then show ?thesis by (simp add: Add_eq update_conv')
next
  case True
  let ?s = "stored [TableLock] k l d w"
  have ds: "distinct (map fst (items ?s))"
    using assms by (simp add: distinct_update)
  have m: "map_of (items ?s) k = Some (length (heap w))"
    by (simp add: update_conv')
  have now: "fst (time_Now ?s) = fst (time_Now (snd (time_Now w)))"
    by (simp add: time_Now_fst)
  have l: "l \<noteq> 0" using True by (simp add: scan_due_def)
  have "map_of (items (expirationCheck ?s)) k =
          (if \<not> expired (fst (time_Now ?s)) (heap ?s) (k, length (heap w))
           then Some (length (heap w)) else None)"
    unfolding expirationCheck_items_distinct [OF ds]
    by (rule map_of_filter_distinct [OF ds m])
  also have "expired (fst (time_Now ?s)) (heap ?s) (k, length (heap w)) \<longleftrightarrow>
          l \<le> time_Sub (fst (time_Now (snd (time_Now w)))) (fst (time_Now w))"
    unfolding now using l by (simp add: expired_def idle_def)
  finally show ?thesis using True by (simp add: Add_eq)
qed

lemma Add_about:
  assumes "distinct (map fst (items w))" and "r < length (heap w)"
      and "\<forall>e\<in>set (items w). snd e = r \<longrightarrow> fst e = k"
  shows "filter (about r) (trace (snd (Add k l d w))) = filter (about r) (trace w)"
proof -
  let ?s = "stored [TableLock] k l d w"
  have ds: "distinct (map fst (items ?s))"
    using assms(1) by (simp add: distinct_update)
  have "r \<notin> snd ` set (items ?s)"
  proof
    assume "r \<in> snd ` set (items ?s)"
    then obtain e where e: "e \<in> set (AList.update k (length (heap w)) (items w))" "snd e = r"
      by auto
    from set_update_subset [OF assms(1) e(1)] e(2) assms(2,3) show False by auto
  qed
  from expirationCheck_about [OF ds this]
  have "filter (about r) (trace (expirationCheck ?s)) = filter (about r) (trace ?s)" .
  moreover have "filter (about r) (trace ?s) = filter (about r) (trace w)"
    by (simp add: stored_def split: option.splits)
  ultimately show ?thesis by (simp add: Add_eq)
qed

lemma Add_heap:
  "heap (snd (Add k l d w)) =
     heap w @ [\<lparr>key = k, data = d, lifeSpan = l, createdOn = fst (time_Now w),
                accessedOn = fst (time_Now w), accessCount = 0, aboutToExpire = None\<rparr>]"
  by (simp add: Add_eq)


lemma about_only:
  assumes "distinct al" and "\<forall>e\<in>set al. snd e = a \<longrightarrow> e = x"
  shows "filter (about a) (concat (map (delete_path cb h) (filter P al))) =
           (if x \<in> set al \<and> P x then filter (about a) (delete_path cb h x) else [])"
  using assms
proof (induction al)
  case Nil
  then show ?case by simp
next
  case (Cons e al)
  have IH: "filter (about a) (concat (map (delete_path cb h) (filter P al))) =
           (if x \<in> set al \<and> P x then filter (about a) (delete_path cb h x) else [])"
    using Cons by simp
  show ?case
  proof (cases "snd e = a")
    case True
    then have e: "e = x" using Cons.prems(2) by simp
    then have "x \<notin> set al" using Cons.prems(1) by simp
    then show ?thesis using IH e by simp
  next
    case False
    have none: "filter (about a) (delete_path cb h e) = []"
      using False by (rule about_delete_path_other)
    show ?thesis
    proof (cases "e = x")
      case True
      then have "x \<notin> set al" using Cons.prems(1) by simp
      then show ?thesis using IH none True by simp
    next
      case False
      then show ?thesis using IH none by auto
    qed
  qed
qed

lemma Add_about_new:
  assumes "table_ok w"
  shows "filter (about (length (heap w))) (trace (snd (Add k l d w))) =
           filter (about (length (heap w))) (trace w) @
           (if scan_due l w \<and>
               l \<le> time_Sub (fst (time_Now (snd (time_Now w)))) (fst (time_Now w))
            then (case aboutToDeleteItem w of
                    None \<Rightarrow> [] | Some f \<Rightarrow> [CallAboutToDeleteItem f (length (heap w))])
            else [])"
proof -
  let ?a = "length (heap w)"
  let ?s = "stored [TableLock] k l d w"
  have st: "filter (about ?a) (trace ?s) = filter (about ?a) (trace w)"
    by (simp add: stored_def split: option.splits)
  show ?thesis
  proof (cases "scan_due l w")
    case False
    then show ?thesis using st by (simp add: Add_eq)
  next
    case True
    have d: "distinct (map fst (items w))" using assms by (simp add: table_ok_def)
    have ds: "distinct (map fst (items ?s))" using d by (simp add: distinct_update)
    then have dl: "distinct (items ?s)" by (simp add: distinct_map)
    have only: "\<forall>e\<in>set (items ?s). snd e = ?a \<longrightarrow> e = (k, ?a)"
    proof (intro ballI impI)
      fix e assume e: "e \<in> set (items ?s)" "snd e = ?a"
      then have "e \<in> set (AList.update k ?a (items w))" by simp
      from set_update_subset [OF d this] e(2) assms show "e = (k, ?a)"
        by (auto simp add: table_ok_def)
    qed
    have mem: "(k, ?a) \<in> set (items ?s)"
      by (rule map_of_SomeD) (simp add: update_conv')
    have now: "fst (time_Now ?s) = fst (time_Now (snd (time_Now w)))"
      by (simp add: time_Now_fst)
    have l: "l \<noteq> 0" using True by (simp add: scan_due_def)
    have ex: "expired (fst (time_Now ?s)) (heap ?s) (k, ?a) \<longleftrightarrow>
          l \<le> time_Sub (fst (time_Now (snd (time_Now w)))) (fst (time_Now w))"
      unfolding now using l by (simp add: expired_def idle_def)
    have dp: "filter (about ?a) (delete_path (aboutToDeleteItem ?s) (heap ?s) (k, ?a)) =
        (case aboutToDeleteItem w of None \<Rightarrow> [] | Some f \<Rightarrow> [CallAboutToDeleteItem f ?a])"
      by (simp add: delete_path_def split: option.splits)
    have "filter (about ?a) (trace (expirationCheck ?s)) =
            filter (about ?a) (filter is_delete_path (trace (expirationCheck ?s)))"
      by (simp only: about_delete_path)
    also have "\<dots> = filter (about ?a) (filter is_delete_path (trace ?s)) @
        filter (about ?a) (concat (map (delete_path (aboutToDeleteItem ?s) (heap ?s))
                       (filter (expired (fst (time_Now ?s)) (heap ?s)) (items ?s))))"
      unfolding expirationCheck_delete_path [OF ds] filter_append ..
    also have "\<dots> = filter (about ?a) (trace w) @
        (if l \<le> time_Sub (fst (time_Now (snd (time_Now w)))) (fst (time_Now w))
         then (case aboutToDeleteItem w of None \<Rightarrow> [] | Some f \<Rightarrow> [CallAboutToDeleteItem f ?a])
         else [])"
      unfolding about_only [OF dl only] about_delete_path st
      using mem ex dp by simp
    finally show ?thesis using True by (simp add: Add_eq)
  qed
qed

subsection \<open>Value with a loader\<close>

lemma Value_load:
  assumes "map_of (items w) k = None" and "loadData w = Some f"
      and "f k args (clk w) (heap w) = (Some e, h)"
  shows "Value k args w =
           (Inr e,
            snd (Add k (lifeSpan (h ! e)) (data (h ! e))
                   (w\<lparr>heap := h,
                      trace := trace w @ [TableRLock, MapLoad k, TableRUnlock, CallLoadData k]\<rparr>)))"
proof -
  have eq: "(emit (CallLoadData k) (emit TableRUnlock (emit (MapLoad k) (emit TableRLock w))))\<lparr>heap := h\<rparr> =
          w\<lparr>heap := h,
            trace := trace w @ [TableRLock, MapLoad k, TableRUnlock, CallLoadData k]\<rparr>"
    by (simp add: emit_def)
  show ?thesis
    using assms by (simp add: Value_def Let_def case_prod_unfold eq)
qed


lemma loading_facts:
  "map_of (items (loading l)) ''q'' = None"
  "loadData (loading l) = Some (example_loader l)"
  "example_loader l ''q'' [] (clk (loading l)) (heap (loading l)) =
     (Some 3, heap example @
        [\<lparr>key = ''q'', data = ''loaded'', lifeSpan = l, createdOn = 8, accessedOn = 8,
          accessCount = 5, aboutToExpire = Some 9\<rparr>])"
  "distinct (map fst (items (loading l)))"
  "fst (time_Now (loading l)) = 10"
  "fst (time_Now (snd (time_Now (loading l)))) = 11"
  "cleanupInterval (loading l) = 3"
  "length (heap example) = 3"
  by (simp_all add: loading_def example_def example_loader_def time_Now_def)



subsection \<open>MostAccessed\<close>

lemma MostAccessed_loop_items [simp]:
  "items (snd (MostAccessed_loop n ps c r w)) = items w"
  "heap (snd (MostAccessed_loop n ps c r w)) = heap w"
  "clk (snd (MostAccessed_loop n ps c r w)) = clk w"
  "loadData (snd (MostAccessed_loop n ps c r w)) = loadData w"
  by (induction ps arbitrary: c r w; simp add: Let_def split: option.splits)+

lemma MostAccessed_loop_result:
  assumes "\<forall>v\<in>set ps. map_of (items w) (fst v) \<noteq> None"
  shows "fst (MostAccessed_loop n ps c r w) =
           r @ map (\<lambda>v. the (map_of (items w) (fst v))) (take (nat (n - c)) ps)"
  using assms
proof (induction ps arbitrary: c r w)
  case Nil
  then show ?case by simp
next
  case (Cons v ps)
  show ?case
  proof (cases "n \<le> c")
    case True
    then show ?thesis by simp
  next
    case False
    then have n: "nat (n - c) = Suc (nat (n - (c + 1)))" by simp
    obtain a where a: "map_of (items w) (fst v) = Some a"
      using Cons.prems by auto
    have "\<forall>u\<in>set ps. map_of (items (emit (MapLoad (fst v)) w)) (fst u) \<noteq> None"
      using Cons.prems by simp
    from Cons.IH [OF this, of "c + 1" "r @ [a]"] False a
    show ?thesis
      unfolding n by (simp add: Let_def)
  qed
qed

lemma MostAccessed_result:
  assumes "distinct (map fst (items w))"
  shows "fst (MostAccessed n w) =
           map (\<lambda>v. the (map_of (items w) (fst v)))
             (take (nat n) (sort_Sort (map (\<lambda>(k, v). (k, accessCount (heap w ! v))) (items w))))"
proof -
  let ?p = "map (\<lambda>(k, v). (k, accessCount (heap w ! v))) (items w)"
  have "\<forall>v\<in>set (sort_Sort ?p). map_of (items (emit TableRLock w)) (fst v) \<noteq> None"
  proof
    fix v assume "v \<in> set (sort_Sort ?p)"
    then obtain k a where "(k, a) \<in> set (items w)" "fst v = k"
      by (auto simp add: sort_Sort_def)
    then have "fst v \<in> fst ` set (items w)" by force
    then show "map_of (items (emit TableRLock w)) (fst v) \<noteq> None"
      by (simp add: map_of_eq_None_iff)
  qed
  from MostAccessed_loop_result [OF this, of n 0 "[]"]
  show ?thesis
    by (simp add: MostAccessed_def Let_def case_prod_unfold)
qed



subsection \<open>The invariant of the items along a run\<close>

lemma heap_ok_mono: "heap_ok c h \<Longrightarrow> c \<le> c1 \<Longrightarrow> heap_ok c1 h"
  by (auto simp add: heap_ok_def item_ok_def)

lemma heap_ok_append: "heap_ok c (h @ [it]) = (heap_ok c h \<and> item_ok c it)"
  by (auto simp add: heap_ok_def)

lemma heap_ok_update: "heap_ok c h \<Longrightarrow> item_ok c it \<Longrightarrow> heap_ok c (h[a := it])"
  unfolding heap_ok_def using set_update_subset_insert [of h a it] by auto

lemma grows_refl [simp]: "grows h h"
  by (simp add: grows_def)

lemma grows_trans: "grows h h1 \<Longrightarrow> grows h1 h2 \<Longrightarrow> grows h h2"
  unfolding grows_def by (meson le_trans less_le_trans order_trans)

lemma grows_append [simp]: "grows h (h @ xs)"
  by (simp add: grows_def nth_append)

lemma grows_update:
  assumes "a < length h \<Longrightarrow> accessCount (h ! a) \<le> accessCount it"
  shows "grows h (h[a := it])"
proof -
  have "accessCount (h ! b) \<le> accessCount (h[a := it] ! b)" if "b < length h" for b
    using assms that by (cases "b = a") simp_all
  then show ?thesis by (simp add: grows_def)
qed

lemma wrap64_range: "- (2 ^ 63) \<le> wrap64 x \<and> wrap64 x < 2 ^ 63"
proof -
  have "0 \<le> (x + 2 ^ 63) mod (2 ^ 64 :: int)" "(x + 2 ^ 63) mod (2 ^ 64 :: int) < 2 ^ 64"
    by simp_all
  then show ?thesis unfolding wrap64_def by simp
qed

lemma wrap64_id: "- (2 ^ 63) \<le> x \<Longrightarrow> x < 2 ^ 63 \<Longrightarrow> wrap64 x = x"
  by (simp add: wrap64_def)

lemma wrap64_wrap64: "wrap64 (wrap64 x + y) = wrap64 (x + y)"
proof -
  have e: "wrap64 x + y + 2 ^ 63 = (x + 2 ^ 63) mod 2 ^ 64 + y"
    "x + 2 ^ 63 + y = x + y + (2 ^ 63 :: int)"
    by (simp_all add: wrap64_def)
  have "(wrap64 x + y + 2 ^ 63) mod 2 ^ 64 = ((x + 2 ^ 63) mod 2 ^ 64 + y) mod 2 ^ 64"
    by (simp only: e(1))
  also have "\<dots> = (x + 2 ^ 63 + y) mod 2 ^ 64"
    by (rule mod_add_left_eq)
  also have "\<dots> = (x + y + 2 ^ 63) mod 2 ^ 64"
    by (simp only: e(2))
  finally show ?thesis by (simp only: wrap64_def)
qed

lemma wrap64_step:
  assumes "- (2 ^ 63) \<le> c" and "c < 2 ^ 63"
  shows "wrap64 (c + 1) = (if c = 2 ^ 63 - 1 then - (2 ^ 63) else c + 1)"
proof (cases "c = 2 ^ 63 - 1")
  case True
  then show ?thesis by (simp add: wrap64_def)
next
  case False
  then have "c + 1 < 2 ^ 63" using assms by simp
  then show ?thesis using assms False by (simp add: wrap64_id)
qed

lemma ok_frame:
  assumes "world_ok w" and "heap w1 = heap w" and "clk w \<le> clk w1" and "loadData w1 = loadData w"
  shows "world_ok w1 \<and> length (heap w) \<le> length (heap w1) \<and>
         (below_wrap (heap w) \<longrightarrow> grows (heap w) (heap w1))"
  using assms heap_ok_mono [of "clk w" "heap w" "clk w1"] by (simp add: world_ok_def)

lemma ok_write:
  assumes "world_ok w" and "heap_ok (clk w1) (heap w1)" and "grows (heap w) (heap w1)"
      and "loadData w1 = loadData w"
  shows "world_ok w1 \<and> length (heap w) \<le> length (heap w1) \<and>
         (below_wrap (heap w) \<longrightarrow> grows (heap w) (heap w1))"
  using assms by (simp add: world_ok_def grows_def)

lemma Add_ok:
  assumes "world_ok w"
  shows "world_ok (snd (Add k l d w)) \<and> grows (heap w) (heap (snd (Add k l d w)))"
proof -
  let ?t = "fst (time_Now w)"
  let ?w1 = "snd (Add k l d w)"
  have c: "?t \<le> clk ?w1"
    using time_Now_ge [of "stored [TableLock] k l d w"] by (simp add: Add_eq)
  have "clk w \<le> ?t" by (rule time_Now_ge)
  then have "heap_ok (clk ?w1) (heap w)"
    using assms c heap_ok_mono [of "clk w" "heap w" "clk ?w1"] by (simp add: world_ok_def)
  then have "heap_ok (clk ?w1) (heap ?w1)"
    using c by (simp add: Add_heap heap_ok_append item_ok_def)
  moreover have "loadData ?w1 = loadData w" by (simp add: Add_eq)
  moreover have "grows (heap w) (heap ?w1)" by (simp add: Add_heap)
  ultimately show ?thesis using assms by (simp add: world_ok_def)
qed

lemma KeepAlive_fields:
  "heap (KeepAlive a w) =
     (heap w)[a := (heap w ! a)\<lparr>accessedOn := fst (time_Now w),
                                accessCount := wrap64 (accessCount (heap w ! a) + 1)\<rparr>]"
  "clk (KeepAlive a w) = fst (time_Now w)"
  "loadData (KeepAlive a w) = loadData w"
  by (simp_all add: KeepAlive_def Let_def case_prod_unfold time_Now_fst)

lemma KeepAlive_ok:
  assumes "world_ok w"
  shows "world_ok (KeepAlive a w) \<and> length (heap w) \<le> length (heap (KeepAlive a w)) \<and>
         (below_wrap (heap w) \<longrightarrow> grows (heap w) (heap (KeepAlive a w)))"
proof -
  let ?t = "fst (time_Now w)"
  let ?it = "(heap w ! a)\<lparr>accessedOn := ?t,
        accessCount := wrap64 (accessCount (heap w ! a) + 1)\<rparr>"
  have t: "clk w \<le> ?t" by (rule time_Now_ge)
  have h: "heap_ok ?t (heap w)"
    using assms t heap_ok_mono by (auto simp add: world_ok_def)
  have 1: "heap_ok (clk (KeepAlive a w)) (heap (KeepAlive a w))"
  proof (cases "a < length (heap w)")
    case True
    then have "item_ok (clk w) (heap w ! a)"
      using assms by (simp add: world_ok_def heap_ok_def)
    then have "item_ok ?t ?it"
      using t wrap64_range [of "accessCount (heap w ! a) + 1"] by (simp add: item_ok_def)
    then show ?thesis
      unfolding KeepAlive_fields using h by (intro heap_ok_update)
  next
    case False
    then show ?thesis unfolding KeepAlive_fields using h by (simp add: list_update_beyond)
  qed
  have 2: "grows (heap w) (heap (KeepAlive a w))" if b: "below_wrap (heap w)"
    unfolding KeepAlive_fields
  proof (rule grows_update)
    assume a: "a < length (heap w)"
    then have "item_ok (clk w) (heap w ! a)"
      using assms by (simp add: world_ok_def heap_ok_def)
    moreover have "accessCount (heap w ! a) < 2 ^ 63 - 1"
      using a b by (simp add: below_wrap_def)
    ultimately have "wrap64 (accessCount (heap w ! a) + 1) = accessCount (heap w ! a) + 1"
      by (intro wrap64_id) (simp_all add: item_ok_def)
    then show "accessCount (heap w ! a) \<le> accessCount ?it" by simp
  qed
  have "world_ok (KeepAlive a w)"
    using assms 1 by (simp add: world_ok_def KeepAlive_fields(3))
  then show ?thesis using 2 by (simp add: KeepAlive_fields(1))
qed


lemma KeepAlive_run:
  assumes "a < length (heap w)"
    and "- (2 ^ 63) \<le> accessCount (heap w ! a)" and "accessCount (heap w ! a) < 2 ^ 63"
  shows "accessCount (heap (run (replicate n (OpKeepAlive a)) w) ! a) =
           wrap64 (accessCount (heap w ! a) + int n)"
  using assms
proof (induction n arbitrary: w)
  case 0
  then show ?case by (simp add: wrap64_id)
next
  case (Suc n)
  let ?c = "accessCount (heap w ! a)"
  have l: "a < length (heap (KeepAlive a w))"
    using Suc.prems(1) by (simp add: KeepAlive_fields(1))
  have c: "accessCount (heap (KeepAlive a w) ! a) = wrap64 (?c + 1)"
    using Suc.prems(1) by (simp add: KeepAlive_fields(1))
  have "accessCount (heap (run (replicate n (OpKeepAlive a)) (KeepAlive a w)) ! a) =
      wrap64 (wrap64 (?c + 1) + int n)"
    using Suc.IH [OF l] wrap64_range [of "?c + 1"] unfolding c by simp
  also have "\<dots> = wrap64 (?c + int (Suc n))"
    by (simp add: wrap64_wrap64 add.assoc)
  finally show ?case by simp
qed

lemma NotFoundAdd_Add:
  assumes "map_of (items w) k = None"
  shows "snd (NotFoundAdd k l d w) =
           reprefix (trace w @ [TableLock, MapLoad k]) (Suc (length (trace w)))
             (snd (Add k l d w))"
proof -
  have "Suc (length (trace w)) \<le> length (trace (stored [TableLock] k l d w))"
    using stored_trace_length [of w "[TableLock]" k l d] by simp
  then show ?thesis
    by (simp add: NotFoundAdd_absent [OF assms] Add_eq stored_reprefix expirationCheck_reprefix)
qed

lemma NotFoundAdd_ok:
  assumes "world_ok w"
  shows "world_ok (snd (NotFoundAdd k l d w)) \<and>
         grows (heap w) (heap (snd (NotFoundAdd k l d w)))"
proof (cases "map_of (items w) k")
  case None
  from Add_ok [OF assms, of k l d] show ?thesis
    unfolding NotFoundAdd_Add [OF None] by (simp add: world_ok_def)
next
  case (Some r)
  then have "map_of (items w) k \<noteq> None" by simp
  from NotFoundAdd_present [OF this] assms show ?thesis
    by (simp add: world_ok_def)
qed

lemma Foreach_loop_fields [simp]:
  "heap (Foreach_loop f its w) = heap w" "clk (Foreach_loop f its w) = clk w"
  "loadData (Foreach_loop f its w) = loadData w"
  by (induction its arbitrary: w; auto)+

lemma Value_ok:
  assumes "world_ok w"
  shows "world_ok (snd (Value k args w)) \<and> length (heap w) \<le> length (heap (snd (Value k args w))) \<and>
         (below_wrap (heap w) \<longrightarrow> grows (heap w) (heap (snd (Value k args w))))"
proof -
  let ?w2 = "emit TableRUnlock (emit (MapLoad k) (emit TableRLock w))"
  have w2: "world_ok ?w2" "heap ?w2 = heap w"
    using assms by (simp_all add: world_ok_def)
  show ?thesis
  proof (cases "map_of (items w) k")
    case (Some a)
    then have "snd (Value k args w) = KeepAlive a ?w2"
      by (simp add: Value_def Let_def)
    with KeepAlive_ok [OF w2(1), of a] w2(2) show ?thesis by simp
  next
    case None
    show ?thesis
    proof (cases "loadData w")
      case None
      then have "snd (Value k args w) = ?w2"
        using \<open>map_of (items w) k = None\<close> by (simp add: Value_def Let_def)
      then show ?thesis using w2 by simp
    next
      case (Some f)
      let ?h = "snd (f k args (clk w) (heap w))"
      let ?wl = "(emit (CallLoadData k) ?w2)\<lparr>heap := ?h\<rparr>"
      have f: "loader_ok f" using assms Some by (simp add: world_ok_def)
      have hw: "heap_ok (clk w) (heap w)" using assms by (simp add: world_ok_def)
      from f hw have h: "heap_ok (clk w) ?h" "grows (heap w) ?h"
        unfolding loader_ok_def by blast+
      have wl: "world_ok ?wl" "heap ?wl = ?h"
        using h f Some by (simp_all add: world_ok_def)
      have "world_ok (snd (Value k args w)) \<and> grows (heap w) (heap (snd (Value k args w)))"
      proof (cases "fst (f k args (clk w) (heap w))")
        case None
        then have "snd (Value k args w) = ?wl"
          using \<open>map_of (items w) k = None\<close> Some
          by (simp add: Value_def Let_def case_prod_unfold)
        then show ?thesis using wl h by simp
      next
        case (Some e)
        then have "snd (Value k args w) =
            snd (Add k (lifeSpan (?h ! e)) (data (?h ! e)) ?wl)"
          using \<open>map_of (items w) k = None\<close> \<open>loadData w = Some f\<close>
          by (simp add: Value_def Let_def case_prod_unfold)
        with Add_ok [OF wl(1), of k "lifeSpan (?h ! e)" "data (?h ! e)"] wl(2) h(2)
        show ?thesis by (auto intro: grows_trans)
      qed
      then show ?thesis by (simp add: grows_def)
    qed
  qed
qed

lemma unhashable_fields [simp]:
  "heap (Add_unhashable l w) = heap w" "loadData (Add_unhashable l w) = loadData w"
  "items (Add_unhashable l w) = items w" "clk (Add_unhashable l w) = fst (time_Now w)"
  "heap (NotFoundAdd_unhashable w) = heap w" "loadData (NotFoundAdd_unhashable w) = loadData w"
  "items (NotFoundAdd_unhashable w) = items w" "clk (NotFoundAdd_unhashable w) = clk w"
  "heap (Delete_unhashable w) = heap w" "loadData (Delete_unhashable w) = loadData w"
  "items (Delete_unhashable w) = items w" "clk (Delete_unhashable w) = clk w"
  "heap (Value_unhashable w) = heap w" "loadData (Value_unhashable w) = loadData w"
  "items (Value_unhashable w) = items w" "clk (Value_unhashable w) = clk w"
  "heap (Exists_unhashable w) = heap w" "loadData (Exists_unhashable w) = loadData w"
  "items (Exists_unhashable w) = items w" "clk (Exists_unhashable w) = clk w"
  by (simp_all add: Add_unhashable_def NotFoundAdd_unhashable_def Delete_unhashable_def
      Value_unhashable_def Exists_unhashable_def Let_def case_prod_unfold time_Now_fst)

lemma perform_ok:
  assumes "world_ok w" and "op_ok op"
  shows "world_ok (snd (perform op w)) \<and> length (heap w) \<le> length (heap (snd (perform op w))) \<and>
         (below_wrap (heap w) \<longrightarrow> grows (heap w) (heap (snd (perform op w))))"
proof (cases op)
  case (OpAdd i l d)
  show ?thesis
  proof (cases i)
    case (Hashable k)
    then show ?thesis using OpAdd Add_ok [OF assms(1), of k l d]
      by (simp add: case_prod_unfold Let_def grows_def)
  next
    case Unhashable
    then show ?thesis using OpAdd ok_frame [OF assms(1), of "Add_unhashable l w"]
      by (simp add: time_Now_ge)
  qed
next
  case (OpNotFoundAdd i l d)
  show ?thesis
  proof (cases i)
    case (Hashable k)
    then show ?thesis using OpNotFoundAdd NotFoundAdd_ok [OF assms(1), of k l d]
      by (simp add: case_prod_unfold Let_def grows_def)
  next
    case Unhashable
    then show ?thesis using OpNotFoundAdd ok_frame [OF assms(1), of "NotFoundAdd_unhashable w"]
      by simp
  qed
next
  case (OpDelete i)
  show ?thesis
  proof (cases i)
    case (Hashable k)
    then show ?thesis using OpDelete ok_frame [OF assms(1), of "snd (Delete k w)"]
      by (simp add: case_prod_unfold Let_def)
  next
    case Unhashable
    then show ?thesis using OpDelete ok_frame [OF assms(1), of "Delete_unhashable w"]
      by simp
  qed
next
  case (OpValue i args)
  show ?thesis
  proof (cases i)
    case (Hashable k)
    then show ?thesis using OpValue Value_ok [OF assms(1), of k args]
      by (simp add: case_prod_unfold Let_def)
  next
    case Unhashable
    then show ?thesis using OpValue ok_frame [OF assms(1), of "Value_unhashable w"]
      by simp
  qed
next
  case (OpExists i)
  show ?thesis
  proof (cases i)
    case (Hashable k)
    then show ?thesis using OpExists ok_frame [OF assms(1), of "snd (Exists k w)"]
      by (simp add: case_prod_unfold Let_def Exists_def)
  next
    case Unhashable
    then show ?thesis using OpExists ok_frame [OF assms(1), of "Exists_unhashable w"]
      by simp
  qed
next
  case OpCount
  then show ?thesis using ok_frame [OF assms(1), of "snd (Count w)"]
    by (simp add: case_prod_unfold Let_def Count_def)
next
  case (OpForeach f)
  then show ?thesis using ok_frame [OF assms(1), of "Foreach f w"]
    by (simp add: Foreach_def Let_def)
next
  case OpFlush
  then show ?thesis using ok_frame [OF assms(1), of "Flush w"]
    by (simp add: Flush_eq)
next
  case (OpMostAccessed n)
  then show ?thesis using ok_frame [OF assms(1), of "snd (MostAccessed n w)"]
    by (simp add: case_prod_unfold Let_def MostAccessed_def)
next
  case (OpSetDataLoader f)
  then show ?thesis using assms
    by (cases f) (simp_all add: SetDataLoader_def world_ok_def)
next
  case (OpSetAddedItemCallback f)
  then show ?thesis using ok_frame [OF assms(1), of "SetAddedItemCallback f w"]
    by (simp add: SetAddedItemCallback_def)
next
  case (OpSetAboutToDeleteItemCallback f)
  then show ?thesis using ok_frame [OF assms(1), of "SetAboutToDeleteItemCallback f w"]
    by (simp add: SetAboutToDeleteItemCallback_def)
next
  case (OpSetLogger lg)
  then show ?thesis using ok_frame [OF assms(1), of "SetLogger lg w"]
    by (simp add: SetLogger_def)
next
  case (OpKeepAlive a)
  then show ?thesis using KeepAlive_ok [OF assms(1), of a] by simp
next
  case (OpSetAboutToExpireCallback a f)
  let ?w1 = "SetAboutToExpireCallback a f w"
  have h: "heap ?w1 = (heap w)[a := (heap w ! a)\<lparr>aboutToExpire := f\<rparr>]"
    and c: "clk ?w1 = clk w" "loadData ?w1 = loadData w"
    by (simp_all add: SetAboutToExpireCallback_def Let_def)
  have "heap_ok (clk w) (heap ?w1)"
  proof (cases "a < length (heap w)")
    case True
    then have "item_ok (clk w) ((heap w ! a)\<lparr>aboutToExpire := f\<rparr>)"
      using assms(1) by (simp add: world_ok_def heap_ok_def item_ok_def)
    then show ?thesis unfolding h using assms(1)
      by (intro heap_ok_update) (simp add: world_ok_def)
  next
    case False
    then show ?thesis unfolding h using assms(1) by (simp add: list_update_beyond world_ok_def)
  qed
  moreover have "grows (heap w) (heap ?w1)"
    unfolding h by (rule grows_update) simp
  ultimately show ?thesis
    using OpSetAboutToExpireCallback ok_write [OF assms(1), of ?w1] c by simp
next
  case (OpLifeSpan a)
  then show ?thesis using assms(1) by (simp add: LifeSpan_def Let_def)
next
  case (OpAccessedOn a)
  then show ?thesis using ok_frame [OF assms(1), of "snd (AccessedOn a w)"]
    by (simp add: case_prod_unfold Let_def AccessedOn_def)
next
  case (OpCreatedOn a)
  then show ?thesis using assms(1) by (simp add: CreatedOn_def Let_def)
next
  case (OpAccessCount a)
  then show ?thesis using ok_frame [OF assms(1), of "snd (AccessCount a w)"]
    by (simp add: case_prod_unfold Let_def AccessCount_def)
next
  case (OpKey a)
  then show ?thesis using assms(1) by (simp add: Key_def Let_def)
next
  case (OpData a)
  then show ?thesis using assms(1) by (simp add: Data_def Let_def)
next
  case OpTimerFires
  show ?thesis
  proof (cases "cleanupTimer w")
    case None
    then show ?thesis using OpTimerFires assms(1) by (simp add: timer_fires_def)
  next
    case (Some t)
    let ?w0 = "w\<lparr>cleanupTimer := Some (Timer False (delay t))\<rparr>"
    have "clk w \<le> fst (time_Now ?w0)" using time_Now_ge [of ?w0] by simp
    then show ?thesis
      using OpTimerFires Some assms(1) ok_frame [OF assms(1), of "expirationCheck ?w0"]
      by (simp add: timer_fires_def)
  qed
qed


lemma run_ok:
  assumes "world_ok w" and "\<forall>op\<in>set ops. op_ok op"
  shows "world_ok (run ops w) \<and> length (heap w) \<le> length (heap (run ops w)) \<and>
         (no_wrap ops w \<longrightarrow> grows (heap w) (heap (run ops w)))"
  using assms
proof (induction ops arbitrary: w)
  case Nil
  then show ?case by simp
next
  case (Cons op ops)
  let ?w1 = "snd (perform op w)"
  have 1: "world_ok ?w1" "length (heap w) \<le> length (heap ?w1)"
    "below_wrap (heap w) \<longrightarrow> grows (heap w) (heap ?w1)"
    using perform_ok [of w op] Cons.prems by simp_all
  have 2: "world_ok (run ops ?w1) \<and> length (heap ?w1) \<le> length (heap (run ops ?w1)) \<and>
        (no_wrap ops ?w1 \<longrightarrow> grows (heap ?w1) (heap (run ops ?w1)))"
    using Cons.IH [OF 1(1)] Cons.prems(2) by simp
  show ?case
  proof (cases "fst (perform op w) = Inl Panicked")
    case True
    then show ?thesis using 1 by simp
  next
    case False
    then show ?thesis using 1 2 by (auto intro: grows_trans)
  qed
qed

lemma run_prefix:
  assumes "world_ok w" and "\<forall>op\<in>set (ops1 @ ops2). op_ok op"
  shows "length (heap (run ops1 w)) \<le> length (heap (run (ops1 @ ops2) w)) \<and>
         (no_wrap (ops1 @ ops2) w \<longrightarrow> grows (heap (run ops1 w)) (heap (run (ops1 @ ops2) w)))"
  using assms
proof (induction ops1 arbitrary: w)
  case Nil
  then show ?case using run_ok [of w ops2] by simp
next
  case (Cons op ops1)
  let ?w1 = "snd (perform op w)"
  have 1: "world_ok ?w1"
    using perform_ok [of w op] Cons.prems by simp
  from Cons.IH [OF 1] Cons.prems(2) show ?case by simp
qed



lemma example_loader_ok: "loader_ok (example_loader l)"
  by (simp add: loader_ok_def example_loader_def heap_ok_append item_ok_def)

lemma example_ok: "world_ok example"
  by (simp add: world_ok_def heap_ok_def item_ok_def example_def)



subsection \<open>The shape of the table along a run\<close>

lemma table_ok_filter:
  assumes "table_ok w" and "items w1 = filter P (items w)" and "length (heap w) \<le> length (heap w1)"
  shows "table_ok w1"
  using assms by (auto simp add: table_ok_def distinct_map_filter)

lemma table_ok_same:
  assumes "table_ok w" and "items w1 = items w" and "length (heap w) \<le> length (heap w1)"
  shows "table_ok w1"
  using assms by (auto simp add: table_ok_def)

lemma distinct_snd_update:
  "distinct (map snd al) \<Longrightarrow> a \<notin> snd ` set al \<Longrightarrow> distinct (map snd (AList.update k a al))"
proof (induction al)
  case Nil
  then show ?case by simp
next
  case (Cons x al)
  have "snd ` set (AList.update k a al) \<subseteq> insert a (snd ` set al)"
    by (induction al) auto
  with Cons show ?case by (auto split: if_splits)
qed

lemma set_update_values:
  "e \<in> set (AList.update k a al) \<Longrightarrow> snd e = a \<or> e \<in> set al"
  by (induction al) (auto split: if_splits)

lemma table_ok_stored:
  assumes "table_ok w"
  shows "table_ok (stored pre k l d w)"
proof -
  have fresh: "length (heap w) \<notin> snd ` set (items w)"
    using assms by (auto simp add: table_ok_def)
  have "snd e < Suc (length (heap w))"
    if "e \<in> set (AList.update k (length (heap w)) (items w))" for e
    using set_update_values [OF that] assms by (auto simp add: table_ok_def less_Suc_eq)
  then show ?thesis
    using assms fresh by (simp add: table_ok_def distinct_update distinct_snd_update)
qed

lemma table_ok_expirationCheck:
  assumes "table_ok w"
  shows "table_ok (expirationCheck w)"
  using assms by (rule table_ok_filter) (simp_all add: expirationCheck_items)

lemma table_ok_Add:
  assumes "table_ok w"
  shows "table_ok (snd (Add k l d w))"
  using table_ok_stored [OF assms, of "[TableLock]" k l d]
  by (simp add: Add_eq table_ok_expirationCheck)

lemma table_ok_NotFoundAdd:
  assumes "table_ok w"
  shows "table_ok (snd (NotFoundAdd k l d w))"
proof (cases "map_of (items w) k")
  case None
  show ?thesis
    using table_ok_Add [OF assms, of k l d]
    unfolding NotFoundAdd_Add [OF None] by (simp add: table_ok_def)
next
  case (Some r)
  then have "map_of (items w) k \<noteq> None" by simp
  from NotFoundAdd_present [OF this] assms show ?thesis
    by (simp add: table_ok_def)
qed

lemma table_ok_Value:
  assumes "table_ok w" and "world_ok w"
  shows "table_ok (snd (Value k args w))"
proof -
  let ?w2 = "emit TableRUnlock (emit (MapLoad k) (emit TableRLock w))"
  have w2: "table_ok ?w2" using assms(1) by (simp add: table_ok_def)
  show ?thesis
  proof (cases "map_of (items w) k")
    case (Some a)
    then have "snd (Value k args w) = KeepAlive a ?w2"
      by (simp add: Value_def Let_def)
    then show ?thesis
      using table_ok_same [OF w2, of "KeepAlive a ?w2"]
      by (simp add: KeepAlive_fields KeepAlive_def Let_def case_prod_unfold)
  next
    case None
    show ?thesis
    proof (cases "loadData w")
      case None
      then have "snd (Value k args w) = ?w2"
        using \<open>map_of (items w) k = None\<close> by (simp add: Value_def Let_def)
      then show ?thesis using w2 by simp
    next
      case (Some f)
      let ?h = "snd (f k args (clk w) (heap w))"
      let ?wl = "(emit (CallLoadData k) ?w2)\<lparr>heap := ?h\<rparr>"
      have "loader_ok f" "heap_ok (clk w) (heap w)"
        using assms(2) Some by (simp_all add: world_ok_def)
      then have "grows (heap w) ?h" unfolding loader_ok_def by blast
      then have wl: "table_ok ?wl"
        using table_ok_same [OF assms(1), of ?wl] by (simp add: grows_def)
      show ?thesis
      proof (cases "fst (f k args (clk w) (heap w))")
        case None
        then have "snd (Value k args w) = ?wl"
          using \<open>map_of (items w) k = None\<close> Some
          by (simp add: Value_def Let_def case_prod_unfold)
        then show ?thesis using wl by simp
      next
        case (Some e)
        then have "snd (Value k args w) =
            snd (Add k (lifeSpan (?h ! e)) (data (?h ! e)) ?wl)"
          using \<open>map_of (items w) k = None\<close> \<open>loadData w = Some f\<close>
          by (simp add: Value_def Let_def case_prod_unfold)
        then show ?thesis using table_ok_Add [OF wl] by simp
      qed
    qed
  qed
qed

lemma perform_table_ok:
  assumes "table_ok w" and "world_ok w"
  shows "table_ok (snd (perform op w))"
proof (cases op)
  case (OpAdd i l d)
  then show ?thesis
    using table_ok_Add [OF assms(1), of _ l d] table_ok_same [OF assms(1), of "Add_unhashable l w"]
    by (cases i) (simp_all add: case_prod_unfold Let_def)
next
  case (OpNotFoundAdd i l d)
  then show ?thesis
    using table_ok_NotFoundAdd [OF assms(1), of _ l d]
      table_ok_same [OF assms(1), of "NotFoundAdd_unhashable w"]
    by (cases i) (simp_all add: case_prod_unfold Let_def)
next
  case (OpDelete i)
  show ?thesis
  proof (cases i)
    case (Hashable k)
    then show ?thesis
      using OpDelete table_ok_filter [OF assms(1), of "snd (Delete k w)" "\<lambda>(k', _). k \<noteq> k'"]
      by (simp add: case_prod_unfold Let_def AList.delete_eq)
  next
    case Unhashable
    then show ?thesis
      using OpDelete table_ok_same [OF assms(1), of "Delete_unhashable w"] by simp
  qed
next
  case (OpValue i args)
  then show ?thesis
    using table_ok_Value [OF assms, of _ args] table_ok_same [OF assms(1), of "Value_unhashable w"]
    by (cases i) (simp_all add: case_prod_unfold Let_def)
next
  case (OpExists i)
  show ?thesis
  proof (cases i)
    case (Hashable k)
    then show ?thesis using OpExists assms(1)
      by (simp add: case_prod_unfold Let_def Exists_def table_ok_def)
  next
    case Unhashable
    then show ?thesis
      using OpExists table_ok_same [OF assms(1), of "Exists_unhashable w"] by simp
  qed
next
  case OpCount
  then show ?thesis using assms(1)
    by (simp add: case_prod_unfold Let_def Count_def table_ok_def)
next
  case (OpForeach f)
  have "items (Foreach_loop f its v) = items v" for its and v :: "('a, 'b) world"
    by (induction its arbitrary: v) auto
  then show ?thesis using OpForeach assms(1)
    by (simp add: Foreach_def Let_def table_ok_def)
next
  case OpFlush
  then show ?thesis by (simp add: Flush_eq table_ok_def)
next
  case (OpMostAccessed n)
  then show ?thesis using assms(1)
    by (simp add: case_prod_unfold Let_def MostAccessed_def table_ok_def)
next
  case (OpSetDataLoader f)
  then show ?thesis using assms(1) by (simp add: SetDataLoader_def table_ok_def)
next
  case (OpSetAddedItemCallback f)
  then show ?thesis using assms(1) by (simp add: SetAddedItemCallback_def table_ok_def)
next
  case (OpSetAboutToDeleteItemCallback f)
  then show ?thesis using assms(1) by (simp add: SetAboutToDeleteItemCallback_def table_ok_def)
next
  case (OpSetLogger lg)
  then show ?thesis using assms(1) by (simp add: SetLogger_def table_ok_def)
next
  case (OpKeepAlive a)
  then show ?thesis using table_ok_same [OF assms(1), of "KeepAlive a w"]
    by (simp add: KeepAlive_fields KeepAlive_def Let_def case_prod_unfold)
next
  case (OpSetAboutToExpireCallback a f)
  then show ?thesis using table_ok_same [OF assms(1), of "SetAboutToExpireCallback a f w"]
    by (simp add: SetAboutToExpireCallback_def Let_def)
next
  case (OpLifeSpan a)
  then show ?thesis using assms(1) by (simp add: LifeSpan_def Let_def)
next
  case (OpAccessedOn a)
  then show ?thesis using assms(1)
    by (simp add: case_prod_unfold Let_def AccessedOn_def table_ok_def)
next
  case (OpCreatedOn a)
  then show ?thesis using assms(1) by (simp add: CreatedOn_def Let_def)
next
  case (OpAccessCount a)
  then show ?thesis using assms(1)
    by (simp add: case_prod_unfold Let_def AccessCount_def table_ok_def)
next
  case (OpKey a)
  then show ?thesis using assms(1) by (simp add: Key_def Let_def)
next
  case (OpData a)
  then show ?thesis using assms(1) by (simp add: Data_def Let_def)
next
  case OpTimerFires
  show ?thesis
  proof (cases "cleanupTimer w")
    case None
    then show ?thesis using OpTimerFires assms(1) by (simp add: timer_fires_def)
  next
    case (Some t)
    have "table_ok (w\<lparr>cleanupTimer := Some (Timer False (delay t))\<rparr>)"
      using assms(1) by (simp add: table_ok_def)
    from table_ok_expirationCheck [OF this] show ?thesis
      using OpTimerFires Some assms(1) by (simp add: timer_fires_def)
  qed
qed

lemma run_table_ok:
  assumes "table_ok w" and "world_ok w" and "\<forall>op\<in>set ops. op_ok op"
  shows "table_ok (run ops w)"
  using assms
proof (induction ops arbitrary: w)
  case Nil
  then show ?case by simp
next
  case (Cons op ops)
  have 1: "table_ok (snd (perform op w))" "world_ok (snd (perform op w))"
    using perform_table_ok [OF Cons.prems(1,2)] perform_ok [of w op] Cons.prems by simp_all
  from Cons.IH [OF this] Cons.prems(3) 1(1) show ?case by simp
qed


section \<open>The claims\<close>

text \<open>
  C1. One run of \<open>expirationCheck\<close> over a table in which no entry is listed twice and
  no access time lies in the future. With \<open>now\<close> the instant the scan reads and
  \<open>idle = now.Sub(accessedOn)\<close>:
  every entry with a positive life span and \<open>idle \<ge> lifeSpan\<close> is expired and is gone
  from the table afterwards (so is an entry with a negative life span, the idle time
  being at least 0); the calls and the removal that the scan adds to the trace are
  those of \<open>Delete\<close>, for each expired entry in the order of the range (the table's
  \<open>aboutToDeleteItem\<close>, the item's \<open>aboutToExpire\<close>, the removal from the map);
  every entry with life span 0 is still in the table, and no item of the heap has changed;
  the entries left are exactly those not expired; and \<open>cleanupInterval\<close> is the least
  \<open>lifeSpan - idle\<close> of the entries left that have a positive life span, or 0 when there
  is none.
\<close>

theorem expirationCheck_scan:
  fixes w :: "('k, 'v) world"
  assumes dist: "distinct (map fst (items w))"
      and past: "\<forall>e\<in>set (items w). accessedOn (heap w ! snd e) \<le> clk w"
  shows "(\<forall>e\<in>set (items w).
            0 < lifeSpan (heap w ! snd e) \<and>
            lifeSpan (heap w ! snd e) \<le> idle (fst (time_Now w)) (heap w) (snd e) \<longrightarrow>
            expired (fst (time_Now w)) (heap w) e \<and>
            map_of (items (expirationCheck w)) (fst e) = None) \<and>
         filter is_delete_path (trace (expirationCheck w)) =
           filter is_delete_path (trace w) @
             concat (map (delete_path (aboutToDeleteItem w) (heap w))
                       (filter (expired (fst (time_Now w)) (heap w)) (items w))) \<and>
         (\<forall>e\<in>set (items w).
            lifeSpan (heap w ! snd e) = 0 \<longrightarrow> e \<in> set (items (expirationCheck w))) \<and>
         heap (expirationCheck w) = heap w \<and>
         items (expirationCheck w) =
           filter (\<lambda>e. \<not> expired (fst (time_Now w)) (heap w) e) (items w) \<and>
         cleanupInterval (expirationCheck w) =
           (if {e \<in> set (items (expirationCheck w)). 0 < lifeSpan (heap w ! snd e)} = {} then 0
            else Min (remaining (fst (time_Now w)) (heap w) `
                   {e \<in> set (items (expirationCheck w)). 0 < lifeSpan (heap w ! snd e)}))"
proof -
  let ?now = "fst (time_Now w)"
  let ?h = "heap w"
  let ?w' = "expirationCheck w"
  have its: "items ?w' = filter (\<lambda>e. \<not> expired ?now ?h e) (items w)"
    by (rule expirationCheck_items_distinct [OF dist])
  have idle0: "0 \<le> idle ?now ?h (snd e)" if "e \<in> set (items w)" for e
  proof -
    have "accessedOn (?h ! snd e) \<le> ?now"
      using past that time_Now_ge [of w] by fastforce
    then show ?thesis unfolding idle_def by (rule time_Sub_nonneg)
  qed
  have A: "\<forall>e\<in>set (items w).
            0 < lifeSpan (?h ! snd e) \<and> lifeSpan (?h ! snd e) \<le> idle ?now ?h (snd e) \<longrightarrow>
            expired ?now ?h e \<and> map_of (items ?w') (fst e) = None"
  proof (intro ballI impI)
    fix e assume e: "e \<in> set (items w)"
      and l: "0 < lifeSpan (?h ! snd e) \<and> lifeSpan (?h ! snd e) \<le> idle ?now ?h (snd e)"
    have ex: "expired ?now ?h e" using l by (simp add: expired_def)
    have "fst e \<notin> fst ` set (items ?w')"
    proof
      assume "fst e \<in> fst ` set (items ?w')"
      then obtain q where q: "q \<in> set (items w)" "\<not> expired ?now ?h q" "fst q = fst e"
        unfolding its by auto
      then have "q = e" using dist e by (metis eq_key_imp_eq_value prod.collapse)
      with q ex show False by simp
    qed
    then show "expired ?now ?h e \<and> map_of (items ?w') (fst e) = None"
      using ex by (simp add: map_of_eq_None_iff)
  qed
  have C: "\<forall>e\<in>set (items w). lifeSpan (?h ! snd e) = 0 \<longrightarrow> e \<in> set (items ?w')"
    unfolding its by (simp add: expired_def)
  have tick: "{e \<in> set (items ?w'). 0 < lifeSpan (?h ! snd e)} =
                {e \<in> set (items w). ticking ?now ?h e}"
  proof -
    have "0 < lifeSpan (?h ! snd e) \<longleftrightarrow> lifeSpan (?h ! snd e) \<noteq> 0"
      if "e \<in> set (items w)" "\<not> expired ?now ?h e" for e
      using that idle0 [of e] by (auto simp add: expired_def)
    then show ?thesis unfolding its ticking_def by auto
  qed
  let ?rem = "map (remaining ?now ?h) (filter (ticking ?now ?h) (items w))"
  have pos: "\<forall>x\<in>set ?rem. 0 < x"
    by (auto simp add: remaining_def ticking_def expired_def)
  have D: "cleanupInterval ?w' =
           (if {e \<in> set (items ?w'). 0 < lifeSpan (?h ! snd e)} = {} then 0
            else Min (remaining ?now ?h ` {e \<in> set (items ?w'). 0 < lifeSpan (?h ! snd e)}))"
    unfolding expirationCheck_interval tick
    using fold_smallest [OF pos, of 0] by (auto simp add: filter_empty_conv)
  show ?thesis
    using A C D its expirationCheck_delete_path [OF dist] by simp
qed

theorem expirationCheck_scan_witness:
  "distinct (map fst (items example)) \<and>
   items (expirationCheck example) = [(''a'', 0), (''c'', 2)] \<and>
   map_of (items (expirationCheck example)) ''b'' = None \<and>
   filter is_delete_path (trace (expirationCheck example)) =
     [CallAboutToDeleteItem 2 1, CallAboutToExpire 7 1 ''b'', MapDelete ''b''] \<and>
   cleanupInterval (expirationCheck example) = 14"
proof -
  have d: "distinct (map fst (items example))"
    by (simp add: example_def)
  have p: "\<forall>e\<in>set (items example). accessedOn (heap example ! snd e) \<le> clk example"
    by (simp add: example_def)
  have t: "fst (time_Now example) = 10"
    by (simp add: example_def time_Now_def)
  have s: "{e \<in> set [(''a'', 0::nat), (''c'', 2)]. 0 < lifeSpan (heap example ! snd e)} = {(''c'', 2)}"
    by (auto simp add: example_def)
  show ?thesis
    using expirationCheck_scan [OF d p] d s unfolding t
    by (simp add: example_def expired_def idle_def time_Sub_def maxDuration_def minDuration_def
          remaining_def delete_path_def)
qed

text \<open>
  C2. \<open>Add\<close> makes the item, stores its address under the key (overwriting the address
  the key had), and then calls \<open>addedItem\<close> when it is set: \<open>stored\<close> is the state at that
  point, with the heap, the map and the trace it has. \<open>Add\<close> then runs \<open>expirationCheck\<close>
  on that state, before it returns, exactly when the life span is positive and
  \<open>cleanupInterval\<close> was 0 or larger than the life span; otherwise it returns that state.
  The number of scans in the trace grows by one in the first case and not at all in the
  second.
\<close>

theorem Add_stores_then_scans:
  "Add k l d w =
     (length (heap w),
      if scan_due l w then expirationCheck (stored [TableLock] k l d w)
      else stored [TableLock] k l d w) \<and>
   heap (stored [TableLock] k l d w) =
     heap w @ [\<lparr>key = k, data = d, lifeSpan = l, createdOn = fst (time_Now w),
                accessedOn = fst (time_Now w), accessCount = 0, aboutToExpire = None\<rparr>] \<and>
   items (stored [TableLock] k l d w) = AList.update k (length (heap w)) (items w) \<and>
   map_of (items (stored [TableLock] k l d w)) k = Some (length (heap w)) \<and>
   trace (stored [TableLock] k l d w) =
     trace w @ [TableLock]
       @ (if logger w then [Println (LogAdding k l (name w))] else [])
       @ [MapStore k (length (heap w)), TableUnlock]
       @ (case addedItem w of None \<Rightarrow> [] | Some f \<Rightarrow> [CallAddedItem f (length (heap w))]) \<and>
   cleanupInterval (stored [TableLock] k l d w) = cleanupInterval w \<and>
   cleanupTimer (stored [TableLock] k l d w) = cleanupTimer w \<and>
   scan_due l w = (0 < l \<and> (cleanupInterval w = 0 \<or> l < cleanupInterval w)) \<and>
   scans (snd (Add k l d w)) = scans w + (if scan_due l w then 1 else 0)"
proof -
  have "scans (snd (Add k l d w)) = scans w + (if scan_due l w then 1 else 0)"
    by (simp add: Add_eq scans_expirationCheck)
  moreover have "trace (stored [TableLock] k l d w) =
     trace w @ [TableLock]
       @ (if logger w then [Println (LogAdding k l (name w))] else [])
       @ [MapStore k (length (heap w)), TableUnlock]
       @ (case addedItem w of None \<Rightarrow> [] | Some f \<Rightarrow> [CallAddedItem f (length (heap w))])"
    by (simp add: stored_def)
  ultimately show ?thesis
    using Add_eq [of k l d w] by (simp add: update_conv' scan_due_def)
qed

theorem Add_stores_then_scans_witness:
  "scan_due 2 example \<and> \<not> scan_due 5 example \<and>
   fst (Add ''d'' 2 ''v'' example) = 3 \<and>
   scans (snd (Add ''d'' 2 ''v'' example)) = 1 \<and>
   scans (snd (Add ''d'' 5 ''v'' example)) = 0 \<and>
   items (snd (Add ''d'' 5 ''v'' example)) = [(''a'', 0), (''b'', 1), (''c'', 2), (''d'', 3)] \<and>
   trace (snd (Add ''d'' 5 ''v'' example)) =
     [TableLock, MapStore ''d'' 3, TableUnlock, CallAddedItem 1 3]"
proof -
  note A = Add_stores_then_scans [of "''d''" 2 "''v''" example]
  note B = Add_stores_then_scans [of "''d''" 5 "''v''" example]
  have d2: "scan_due 2 example" and d5: "\<not> scan_due 5 example"
    by (simp_all add: scan_due_def example_def)
  have s0: "scans example = 0" and h: "length (heap example) = 3"
    by (simp_all add: scans_def example_def)
  have 1: "fst (Add ''d'' 2 ''v'' example) = 3"
    using A h by simp
  from A have "scans (snd (Add ''d'' 2 ''v'' example)) =
      scans example + (if scan_due 2 example then 1 else 0)"
    by (elim conjE)
  then have 2: "scans (snd (Add ''d'' 2 ''v'' example)) = 1"
    using d2 s0 by simp
  from B have "scans (snd (Add ''d'' 5 ''v'' example)) =
      scans example + (if scan_due 5 example then 1 else 0)"
    by (elim conjE)
  then have 3: "scans (snd (Add ''d'' 5 ''v'' example)) = 0"
    using d5 s0 by simp
  have 4: "snd (Add ''d'' 5 ''v'' example) = stored [TableLock] ''d'' 5 ''v'' example"
    using B d5 by simp
  have 5: "items (stored [TableLock] ''d'' 5 ''v'' example) =
             [(''a'', 0), (''b'', 1), (''c'', 2), (''d'', 3)]"
    using B by (simp add: example_def)
  have 6: "trace (stored [TableLock] ''d'' 5 ''v'' example) =
             [TableLock, MapStore ''d'' 3, TableUnlock, CallAddedItem 1 3]"
    using B by (simp add: example_def)
  show ?thesis
    using d2 d5 1 2 3 5 6 unfolding 4 by simp
qed

text \<open>
  C3. \<open>Delete\<close> of a key the table holds: the events it adds to the trace are, in this
  order, the look-up under the read lock, the call of the table's \<open>aboutToDeleteItem\<close>
  (when set) with the entry, the call of the entry's own \<open>aboutToExpire\<close> (when set)
  with the key, under the entry's read lock, and the removal of the key from the map under
  the table's lock; the entry is returned and the key is gone. The scan removes an expired
  entry by this very \<open>Delete\<close>: one step of its loop at an expired entry is \<open>Delete\<close> of
  its key, between reading the entry and the rest of the range.
\<close>

theorem Delete_order:
  assumes "map_of (items w) k = Some r"
  shows "Delete k w =
           (Inr r,
            w\<lparr>items := AList.delete k (items w),
              trace := trace w @ [TableRLock, MapLoad k, TableRUnlock]
                @ (case aboutToDeleteItem w of None \<Rightarrow> [] | Some f \<Rightarrow> [CallAboutToDeleteItem f r])
                @ [ItemRLock r]
                @ (case aboutToExpire (heap w ! r) of
                     None \<Rightarrow> [] | Some g \<Rightarrow> [CallAboutToExpire g r k])
                @ [TableLock]
                @ (if logger w
                   then [Println (LogDeleting k (createdOn (heap w ! r))
                                    (accessCount (heap w ! r)) (name w))]
                   else [])
                @ [MapDelete k, TableUnlock, ItemRUnlock r]\<rparr>) \<and>
         map_of (items (snd (Delete k w))) k = None \<and>
         (expired now (heap w) (k, r) \<longrightarrow>
            expirationCheck_loop now ((k, r) # rest) sd w =
              expirationCheck_loop now rest sd
                (snd (Delete k (emit (ItemRUnlock r) (emit (ItemRLock r) w)))))"
proof -
  have "expirationCheck_loop now ((k, r) # rest) sd w =
              expirationCheck_loop now rest sd
                (snd (Delete k (emit (ItemRUnlock r) (emit (ItemRLock r) w))))"
    if "expired now (heap w) (k, r)"
    using that by (simp add: loop_step)
  moreover have "map_of (items (snd (Delete k w))) k = None"
    by (simp add: AList.delete_conv)
  ultimately show ?thesis
    using Delete_present [OF assms] by simp
qed

theorem Delete_order_witness:
  "map_of (items example) ''b'' = Some 1 \<and>
   expired 10 (heap example) (''b'', 1) \<and>
   fst (Delete ''b'' example) = Inr 1 \<and>
   trace (snd (Delete ''b'' example)) =
     [TableRLock, MapLoad ''b'', TableRUnlock, CallAboutToDeleteItem 2 1, ItemRLock 1,
      CallAboutToExpire 7 1 ''b'', TableLock, MapDelete ''b'', TableUnlock, ItemRUnlock 1] \<and>
   items (snd (Delete ''b'' example)) = [(''a'', 0), (''c'', 2)] \<and>
   expirationCheck_loop 10 [(''b'', 1)] 0 example =
     (0, snd (Delete ''b'' (emit (ItemRUnlock 1) (emit (ItemRLock 1) example))))"
proof -
  have m: "map_of (items example) ''b'' = Some 1"
    by (simp add: example_def)
  have e: "expired 10 (heap example) (''b'', 1)"
    by (simp add: example_def expired_def idle_def time_Sub_def maxDuration_def minDuration_def)
  show ?thesis
    using Delete_order [OF m, of 10 "[]" 0] m e
    by (simp add: example_def AList.delete_eq)
qed




text \<open>
  C5. \<open>NotFoundAdd\<close> of a key the table holds returns \<open>false\<close> and changes nothing: the
  state is the one before, but for the lock, the look-up and the unlock in the trace (no
  item made, no \<open>addedItem\<close>, no scan). For a key the table does not hold it returns
  \<open>true\<close>, and its final state is that of \<open>Add\<close> with the same arguments, but for one
  event: the look-up \<open>MapLoad\<close> that follows the \<open>TableLock\<close> with which both begin. The
  look-up and the store stand between that lock and the one unlock that follows them. The
  scan runs under the rule of \<open>Add\<close>.
\<close>

theorem NotFoundAdd_once:
  "(map_of (items w) k \<noteq> None \<longrightarrow>
      NotFoundAdd k l d w =
        (False, w\<lparr>trace := trace w @ [TableLock, MapLoad k, TableUnlock]\<rparr>)) \<and>
   (map_of (items w) k = None \<longrightarrow>
      fst (NotFoundAdd k l d w) = True \<and>
      snd (NotFoundAdd k l d w) =
        (snd (Add k l d w))
          \<lparr>trace := (trace w @ [TableLock, MapLoad k])
                     @ drop (Suc (length (trace w))) (trace (snd (Add k l d w)))\<rparr> \<and>
      take (Suc (length (trace w))) (trace (snd (Add k l d w))) = trace w @ [TableLock] \<and>
      (\<exists>evs. trace (snd (NotFoundAdd k l d w)) =
         trace w @ [TableLock, MapLoad k]
           @ (if logger w then [Println (LogAdding k l (name w))] else [])
           @ [MapStore k (length (heap w)), TableUnlock] @ evs) \<and>
      scans (snd (NotFoundAdd k l d w)) = scans w + (if scan_due l w then 1 else 0))"
proof (intro conjI impI)
  assume "map_of (items w) k \<noteq> None"
  then show "NotFoundAdd k l d w =
        (False, w\<lparr>trace := trace w @ [TableLock, MapLoad k, TableUnlock]\<rparr>)"
    by (rule NotFoundAdd_present)
next
  assume a: "map_of (items w) k = None"
  note N = NotFoundAdd_absent [OF a, of l d]
  let ?s = "stored [TableLock] k l d w"
  let ?q = "trace w @ [TableLock, MapLoad k]"
  let ?n = "Suc (length (trace w))"
  show "fst (NotFoundAdd k l d w) = True" by (simp add: N)
  have n: "?n \<le> length (trace ?s)"
    using stored_trace_length [of w "[TableLock]" k l d] by simp
  have "snd (NotFoundAdd k l d w) = reprefix ?q ?n (snd (Add k l d w))"
    by (simp add: N Add_eq stored_reprefix expirationCheck_reprefix [OF n])
  then show "snd (NotFoundAdd k l d w) =
        (snd (Add k l d w))
          \<lparr>trace := ?q @ drop ?n (trace (snd (Add k l d w)))\<rparr>"
    by (simp add: reprefix_def)
  have ts: "trace ?s = (trace w @ [TableLock]) @
       ((if logger w then [Println (LogAdding k l (name w))] else [])
         @ [MapStore k (length (heap w)), TableUnlock]
         @ (case addedItem w of None \<Rightarrow> [] | Some f \<Rightarrow> [CallAddedItem f (length (heap w))]))"
    by (simp add: stored_def)
  obtain evs where evs: "trace (expirationCheck ?s) = trace ?s @ evs"
    using expirationCheck_trace [of ?s] by (elim exE)
  show "take ?n (trace (snd (Add k l d w))) = trace w @ [TableLock]"
    unfolding Add_eq snd_conv
    by (cases "scan_due l w") (simp_all add: evs, simp_all add: ts)
  let ?s' = "stored [TableLock, MapLoad k] k l d w"
  have ts': "trace ?s' = trace w @ [TableLock, MapLoad k]
           @ (if logger w then [Println (LogAdding k l (name w))] else [])
           @ [MapStore k (length (heap w)), TableUnlock]
           @ (case addedItem w of None \<Rightarrow> [] | Some f \<Rightarrow> [CallAddedItem f (length (heap w))])"
    by (simp add: stored_def)
  obtain evs' where evs': "trace (expirationCheck ?s') = trace ?s' @ evs'"
    using expirationCheck_trace [of ?s'] by (elim exE)
  show "\<exists>evs. trace (snd (NotFoundAdd k l d w)) =
         trace w @ [TableLock, MapLoad k]
           @ (if logger w then [Println (LogAdding k l (name w))] else [])
           @ [MapStore k (length (heap w)), TableUnlock] @ evs"
  proof (cases "scan_due l w")
    case True
    then have "trace (snd (NotFoundAdd k l d w)) = trace ?s' @ evs'"
      by (simp add: N evs')
    then show ?thesis unfolding ts' by simp
  next
    case False
    then have "trace (snd (NotFoundAdd k l d w)) = trace ?s'"
      by (simp add: N)
    then show ?thesis unfolding ts' by simp
  qed
  show "scans (snd (NotFoundAdd k l d w)) = scans w + (if scan_due l w then 1 else 0)"
    by (simp add: N scans_expirationCheck)
qed

theorem NotFoundAdd_once_witness:
  "map_of (items example) ''a'' \<noteq> None \<and>
   fst (NotFoundAdd ''a'' 2 ''v'' example) = False \<and>
   heap (snd (NotFoundAdd ''a'' 2 ''v'' example)) = heap example \<and>
   items (snd (NotFoundAdd ''a'' 2 ''v'' example)) = items example \<and>
   trace (snd (NotFoundAdd ''a'' 2 ''v'' example)) = [TableLock, MapLoad ''a'', TableUnlock] \<and>
   map_of (items example) ''d'' = None \<and>
   fst (NotFoundAdd ''d'' 2 ''v'' example) = True \<and>
   scans (snd (NotFoundAdd ''d'' 2 ''v'' example)) = 1 \<and>
   items (snd (NotFoundAdd ''d'' 2 ''v'' example)) = items (snd (Add ''d'' 2 ''v'' example))"
proof -
  note A = NotFoundAdd_once [of example "''a''" 2 "''v''"]
  note D = NotFoundAdd_once [of example "''d''" 2 "''v''"]
  have a: "map_of (items example) ''a'' \<noteq> None" and d: "map_of (items example) ''d'' = None"
    by (simp_all add: example_def)
  have d2: "scan_due 2 example" and s0: "scans example = 0" and t0: "trace example = []"
    by (simp_all add: scan_due_def scans_def example_def)
  from A [THEN conjunct1, THEN mp, OF a] have 1: "NotFoundAdd ''a'' 2 ''v'' example =
        (False, example\<lparr>trace := trace example @ [TableLock, MapLoad ''a'', TableUnlock]\<rparr>)"
    .
  from D [THEN conjunct2, THEN mp, OF d] have 2: "fst (NotFoundAdd ''d'' 2 ''v'' example) = True"
    and 3: "snd (NotFoundAdd ''d'' 2 ''v'' example) =
        (snd (Add ''d'' 2 ''v'' example))
          \<lparr>trace := (trace example @ [TableLock, MapLoad ''d''])
                     @ drop (Suc (length (trace example))) (trace (snd (Add ''d'' 2 ''v'' example)))\<rparr>"
    and 4: "scans (snd (NotFoundAdd ''d'' 2 ''v'' example)) =
        scans example + (if scan_due 2 example then 1 else 0)"
    by blast+
  have 5: "items (snd (NotFoundAdd ''d'' 2 ''v'' example)) = items (snd (Add ''d'' 2 ''v'' example))"
    unfolding 3 by simp
  show ?thesis
    using a d 2 4 5 d2 s0 t0 unfolding 1 by simp
qed

text \<open>
  C6. \<open>MostAccessed(count)\<close> on a table that lists no key twice returns at most
  \<open>count\<close> entries (none when \<open>count\<close> is not positive), exactly
  \<open>min count (len items)\<close> of them; their access counts, read in the state of the call,
  never increase along the result; every entry returned is an entry of the table; and
  when \<open>count\<close> is at least the size of the table the result holds every entry of the
  table, each once. The table and the heap are as before.
\<close>

theorem MostAccessed_top:
  assumes "distinct (map fst (items w))"
  shows "length (fst (MostAccessed n w)) \<le> nat n \<and>
         length (fst (MostAccessed n w)) = min (nat n) (length (items w)) \<and>
         sorted_wrt (\<ge>) (map (\<lambda>a. accessCount (heap w ! a)) (fst (MostAccessed n w))) \<and>
         set (fst (MostAccessed n w)) \<subseteq> snd ` set (items w) \<and>
         (int (length (items w)) \<le> n \<longrightarrow>
            set (fst (MostAccessed n w)) = snd ` set (items w) \<and>
            length (fst (MostAccessed n w)) = length (items w)) \<and>
         items (snd (MostAccessed n w)) = items w \<and>
         heap (snd (MostAccessed n w)) = heap w"
proof -
  let ?p = "map (\<lambda>(k, v). (k, accessCount (heap w ! v))) (items w)"
  let ?look = "\<lambda>v. the (map_of (items w) (fst v))"
  let ?q = "sort_Sort ?p"
  note R = MostAccessed_result [OF assms, of n]
  have mem: "(fst v, ?look v) \<in> set (items w) \<and> snd v = accessCount (heap w ! ?look v)"
    if "v \<in> set ?q" for v
  proof -
    from that obtain k a where ka: "(k, a) \<in> set (items w)" "v = (k, accessCount (heap w ! a))"
      by (auto simp add: sort_Sort_def)
    then have "map_of (items w) k = Some a" using assms by simp
    then show ?thesis using ka by simp
  qed
  have len: "length (fst (MostAccessed n w)) = min (nat n) (length (items w))"
    unfolding R by (simp add: sort_Sort_def min.commute)
  have "sorted (map (\<lambda>v. - snd v) ?q)"
    unfolding sort_Sort_def by (rule sorted_sort_key)
  then have "sorted_wrt (\<lambda>x y. snd x \<ge> snd y) ?q"
    by (simp add: sorted_wrt_map)
  then have "sorted_wrt (\<lambda>x y. snd x \<ge> snd y) (take (nat n) ?q)"
    by (rule sorted_wrt_take)
  then have "sorted_wrt (\<ge>) (map snd (take (nat n) ?q))"
    by (simp add: sorted_wrt_map)
  moreover have "map (\<lambda>a. accessCount (heap w ! a)) (fst (MostAccessed n w)) =
                   map snd (take (nat n) ?q)"
    unfolding R using mem by (auto dest: in_set_takeD)
  ultimately have srt: "sorted_wrt (\<ge>) (map (\<lambda>a. accessCount (heap w ! a)) (fst (MostAccessed n w)))"
    by simp
  have sub: "set (fst (MostAccessed n w)) \<subseteq> snd ` set (items w)"
  proof
    fix a assume "a \<in> set (fst (MostAccessed n w))"
    then obtain v where v: "v \<in> set (take (nat n) ?q)" "a = ?look v"
      unfolding R by auto
    from mem [OF in_set_takeD [OF v(1)]] v(2) show "a \<in> snd ` set (items w)"
      by (metis image_eqI snd_conv)
  qed
  have all: "set (fst (MostAccessed n w)) = snd ` set (items w)"
    if "int (length (items w)) \<le> n"
  proof
    show "set (fst (MostAccessed n w)) \<subseteq> snd ` set (items w)" by (rule sub)
    show "snd ` set (items w) \<subseteq> set (fst (MostAccessed n w))"
    proof
      fix a assume "a \<in> snd ` set (items w)"
      then obtain k where ka: "(k, a) \<in> set (items w)" by auto
      have t: "take (nat n) ?q = ?q" using that by (simp add: sort_Sort_def)
      have "(k, accessCount (heap w ! a)) \<in> set ?q"
        using ka by (force simp add: sort_Sort_def)
      moreover have "?look (k, accessCount (heap w ! a)) = a"
        using ka assms by simp
      ultimately show "a \<in> set (fst (MostAccessed n w))"
        unfolding R t by force
    qed
  qed
  have fr: "items (snd (MostAccessed n w)) = items w" "heap (snd (MostAccessed n w)) = heap w"
    by (simp_all add: MostAccessed_def Let_def case_prod_unfold)
  show ?thesis using len srt sub all fr by simp
qed

theorem MostAccessed_top_witness:
  "distinct (map fst (items example)) \<and>
   int (length (items example)) \<le> 5 \<and>
   fst (MostAccessed 2 example) = [0, 1] \<and>
   length (fst (MostAccessed 2 example)) \<le> 2 \<and>
   sorted_wrt (\<ge>) (map (\<lambda>a. accessCount (heap example ! a)) (fst (MostAccessed 2 example))) \<and>
   set (fst (MostAccessed 5 example)) = {0, 1, 2} \<and>
   length (fst (MostAccessed 5 example)) = 3 \<and>
   fst (MostAccessed (- 1) example) = []"
proof -
  have d: "distinct (map fst (items example))"
    and n: "int (length (items example)) \<le> 5"
    and i: "snd ` set (items example) = {0, 1, 2}" "length (items example) = 3"
    by (auto simp add: example_def)
  have r: "fst (MostAccessed 2 example) = [0, 1]" "fst (MostAccessed (- 1) example) = []"
    unfolding MostAccessed_result [OF d]
    by (simp_all add: example_def sort_Sort_def)
  from MostAccessed_top [OF d, of 2]
  have 2: "length (fst (MostAccessed 2 example)) \<le> 2"
       "sorted_wrt (\<ge>) (map (\<lambda>a. accessCount (heap example ! a)) (fst (MostAccessed 2 example)))"
    by simp_all
  from MostAccessed_top [OF d, of 5] n
  have 5: "set (fst (MostAccessed 5 example)) = {0, 1, 2}"
       "length (fst (MostAccessed 5 example)) = 3"
    unfolding i by blast+
  show ?thesis using d n r 2 5 by simp
qed

text \<open>
  C7, as amended. After \<open>Flush\<close> the table has no entry and \<open>Count\<close> is 0, \<open>cleanupInterval\<close> is 0
  and no timer is pending: the timer the table held, if any, has been stopped (the field
  still refers to it). The events \<open>Flush\<close> adds to the trace are the lock, the line for
  the logger, the new map, the stop of the timer and the unlock: no callback is called, and
  no item of the heap changes.
\<close>

theorem Flush_resets:
  "items (Flush w) = [] \<and>
   fst (Count (Flush w)) = 0 \<and>
   cleanupInterval (Flush w) = 0 \<and>
   \<not> armed (Flush w) \<and>
   trace (Flush w) =
     trace w @ [TableLock] @ (if logger w then [Println (LogFlushing (name w))] else [])
       @ [MapReset] @ (case cleanupTimer w of None \<Rightarrow> [] | Some t \<Rightarrow> [TimerStop])
       @ [TableUnlock] \<and>
   filter is_call (trace (Flush w)) = filter is_call (trace w) \<and>
   cleanupTimer (Flush w) = map_option (\<lambda>t. Timer False (delay t)) (cleanupTimer w) \<and>
   heap (Flush w) = heap w"
  by (simp add: Flush_eq Count_def Let_def armed_def split: option.splits)

theorem Flush_resets_witness:
  "armed example \<and>
   items (Flush example) = [] \<and>
   cleanupInterval (Flush example) = 0 \<and>
   \<not> armed (Flush example) \<and>
   trace (Flush example) = [TableLock, MapReset, TimerStop, TableUnlock]"
  using Flush_resets [of example]
  by (simp add: example_def armed_def)

text \<open>
  The claim as written fails in its word "cleared": \<open>Flush\<close> stops the timer and leaves
  the field as it is, so that the table still holds the handle of the stopped timer.
\<close>

theorem Flush_resets_counterexample:
  "armed example \<and> cleanupTimer (Flush example) = Some (Timer False 3) \<and>
   cleanupTimer (Flush example) \<noteq> None"
  by (simp add: Flush_eq example_def armed_def)

text \<open>
  C8, as amended. An item made by \<open>CreateCacheItem\<close> has the instant of its making as
  both \<open>createdOn\<close> and \<open>accessedOn\<close>, no access and no callback. From a state in which
  every item has \<open>createdOn \<le> accessedOn\<close>, no time stamp ahead of the clock and an
  access count that is an \<open>int64\<close>, along every sequence of operations of the table and
  of its items (the loaders being code that keeps the same invariant and lowers no access
  count; a panic ends the sequence): the same holds at the end; at every moment of the run
  every item has \<open>createdOn \<le> accessedOn\<close>; every item that exists at some moment
  exists at the end; and its access count at the end is at least as large as at that
  moment, provided that no access count of the heap stands at \<open>2^63 - 1\<close> when an
  operation begins. The proviso is needed: \<open>KeepAlive\<close> of an item adds one to its access
  count, but takes the count \<open>2^63 - 1\<close> to \<open>-2^63\<close>.
\<close>

theorem entries_invariant:
  assumes "world_ok w" and "\<forall>op\<in>set ops. op_ok op"
  shows "createdOn (fst (CreateCacheItem k l d w)) = fst (time_Now w) \<and>
         accessedOn (fst (CreateCacheItem k l d w)) = fst (time_Now w) \<and>
         accessCount (fst (CreateCacheItem k l d w)) = 0 \<and>
         aboutToExpire (fst (CreateCacheItem k l d w)) = None \<and>
         world_ok (run ops w) \<and>
         (\<forall>ops1 ops2. ops = ops1 @ ops2 \<longrightarrow>
            (\<forall>it\<in>set (heap (run ops1 w)). createdOn it \<le> accessedOn it) \<and>
            length (heap (run ops1 w)) \<le> length (heap (run ops w)) \<and>
            (no_wrap ops w \<longrightarrow>
               (\<forall>a<length (heap (run ops1 w)).
                  accessCount (heap (run ops1 w) ! a) \<le> accessCount (heap (run ops w) ! a)))) \<and>
         (\<forall>a<length (heap w).
            accessCount (heap (KeepAlive a w) ! a) =
              (if accessCount (heap w ! a) = 2 ^ 63 - 1 then - (2 ^ 63)
               else accessCount (heap w ! a) + 1))"
proof -
  have "(\<forall>it\<in>set (heap (run ops1 w)). createdOn it \<le> accessedOn it) \<and>
        length (heap (run ops1 w)) \<le> length (heap (run ops w)) \<and>
        (no_wrap ops w \<longrightarrow>
           (\<forall>a<length (heap (run ops1 w)).
              accessCount (heap (run ops1 w) ! a) \<le> accessCount (heap (run ops w) ! a)))"
    if "ops = ops1 @ ops2" for ops1 ops2
  proof -
    have o: "\<forall>op\<in>set ops1. op_ok op" "\<forall>op\<in>set (ops1 @ ops2). op_ok op"
      using assms(2) that by simp_all
    have 1: "world_ok (run ops1 w)" using run_ok [OF assms(1) o(1)] by simp
    have 2: "length (heap (run ops1 w)) \<le> length (heap (run ops w))"
      "no_wrap ops w \<longrightarrow> grows (heap (run ops1 w)) (heap (run ops w))"
      using run_prefix [OF assms(1) o(2)] that by simp_all
    show ?thesis
      using 1 2 by (simp add: world_ok_def heap_ok_def item_ok_def grows_def)
  qed
  moreover have "accessCount (heap (KeepAlive a w) ! a) =
      (if accessCount (heap w ! a) = 2 ^ 63 - 1 then - (2 ^ 63)
       else accessCount (heap w ! a) + 1)" if "a < length (heap w)" for a
  proof -
    have "item_ok (clk w) (heap w ! a)"
      using assms(1) that by (simp add: world_ok_def heap_ok_def)
    then have "wrap64 (accessCount (heap w ! a) + 1) =
        (if accessCount (heap w ! a) = 2 ^ 63 - 1 then - (2 ^ 63)
         else accessCount (heap w ! a) + 1)"
      by (intro wrap64_step) (simp_all add: item_ok_def)
    then show ?thesis using that by (simp add: KeepAlive_fields(1))
  qed
  ultimately show ?thesis
    using run_ok [OF assms] by (simp add: CreateCacheItem_eq)
qed

theorem entries_invariant_witness:
  "world_ok example \<and>
   op_ok (OpSetDataLoader (Some (example_loader 2)) :: (string, string) operation) \<and>
   no_wrap [OpValue (Hashable ''a'') [], OpKeepAlive 0] example \<and>
   accessCount (heap example ! 0) = 2 \<and>
   accessCount (heap (KeepAlive 0 example) ! 0) = 3 \<and>
   accessCount (heap (run [OpValue (Hashable ''a'') []] example) ! 0) = 3 \<and>
   accessCount (heap (run [OpValue (Hashable ''a'') [], OpKeepAlive 0] example) ! 0) = 4 \<and>
   createdOn (heap (run [OpValue (Hashable ''a'') [], OpKeepAlive 0] example) ! 0) = 0 \<and>
   accessedOn (heap (run [OpValue (Hashable ''a'') [], OpKeepAlive 0] example) ! 0) = 11 \<and>
   world_ok (run [OpSetDataLoader (Some (example_loader 2)), OpValue (Hashable ''q'') [],
                  OpValue (Hashable ''a'') [], OpDelete (Hashable ''b''),
                  OpAdd (Hashable ''a'') 0 ''v'', OpAdd Unhashable 0 ''v'', OpFlush] example) \<and>
   accessCount (heap (run [OpValue (Hashable ''a'') []] example) ! 0) \<le>
     accessCount (heap (run [OpValue (Hashable ''a'') [], OpKeepAlive 0] example) ! 0)"
proof -
  let ?ops = "[OpSetDataLoader (Some (example_loader 2)), OpValue (Hashable ''q'') [],
                  OpValue (Hashable ''a'') [], OpDelete (Hashable ''b''),
                  OpAdd (Hashable ''a'') 0 ''v'', OpAdd Unhashable 0 ''v'', OpFlush]
              :: (string, string) operation list"
  let ?two = "[OpValue (Hashable ''a'') [], OpKeepAlive 0] :: (string, string) operation list"
  have o: "\<forall>op\<in>set ?ops. op_ok op"
    by (simp add: example_loader_ok)
  have l: "op_ok (OpSetDataLoader (Some (example_loader 2)) :: (string, string) operation)"
    by (simp add: example_loader_ok)
  have h: "accessCount (heap example ! 0) = 2" "0 < length (heap example)"
    by (simp_all add: example_def)
  have e1: "heap (run [OpValue (Hashable ''a'') []] example) =
      [\<lparr>key = ''a'', data = ''x'', lifeSpan = 0, createdOn = 0, accessedOn = 10,
        accessCount = 3, aboutToExpire = None\<rparr>,
       \<lparr>key = ''b'', data = ''y'', lifeSpan = 5, createdOn = 1, accessedOn = 2,
        accessCount = 1, aboutToExpire = Some 7\<rparr>,
       \<lparr>key = ''c'', data = ''z'', lifeSpan = 20, createdOn = 3, accessedOn = 4,
        accessCount = 0, aboutToExpire = None\<rparr>]"
    by (simp add: Value_def KeepAlive_def Let_def case_prod_unfold time_Now_def example_def
        wrap64_def)
  have e: "heap (run ?two example) ! 0 =
      \<lparr>key = ''a'', data = ''x'', lifeSpan = 0, createdOn = 0, accessedOn = 11,
        accessCount = 4, aboutToExpire = None\<rparr>"
    by (simp add: Value_def KeepAlive_def Let_def case_prod_unfold time_Now_def example_def
        wrap64_def)
  have p: "fst (perform (OpValue (Hashable ''a'') []) example) \<noteq> Inl Panicked"
    by (simp add: Value_def Let_def case_prod_unfold example_def)
  have n: "no_wrap ?two example"
    using p e1 by (simp add: below_wrap_def) (simp add: example_def)
  from entries_invariant [OF example_ok o, where k = "''k''" and l = 0 and d = "''v''"]
  have 1: "world_ok (run ?ops example)"
    by (elim conjE)
  from entries_invariant [where w = example and ops = "?two", OF example_ok]
  have 2: "\<forall>ops1 ops2. ?two = ops1 @ ops2 \<longrightarrow>
            (\<forall>it\<in>set (heap (run ops1 example)). createdOn it \<le> accessedOn it) \<and>
            length (heap (run ops1 example)) \<le> length (heap (run ?two example)) \<and>
            (no_wrap ?two example \<longrightarrow>
               (\<forall>a<length (heap (run ops1 example)).
                  accessCount (heap (run ops1 example) ! a)
                    \<le> accessCount (heap (run ?two example) ! a)))"
    and k: "\<forall>a<length (heap example).
            accessCount (heap (KeepAlive a example) ! a) =
              (if accessCount (heap example ! a) = 2 ^ 63 - 1 then - (2 ^ 63)
               else accessCount (heap example ! a) + 1)"
    by simp_all
  from 2 [rule_format, of "[OpValue (Hashable ''a'') []]" "[OpKeepAlive 0]"] n
  have "\<forall>a<length (heap (run [OpValue (Hashable ''a'') []] example)).
          accessCount (heap (run [OpValue (Hashable ''a'') []] example) ! a)
            \<le> accessCount (heap (run ?two example) ! a)"
    by simp
  moreover have "0 < length (heap (run [OpValue (Hashable ''a'') []] example))"
    by (simp only: e1) simp
  ultimately have 3: "accessCount (heap (run [OpValue (Hashable ''a'') []] example) ! 0) \<le>
     accessCount (heap (run ?two example) ! 0)"
    by blast
  from k h have 5: "accessCount (heap (KeepAlive 0 example) ! 0) = 3"
    by simp
  have 4: "accessCount (heap (run ?two example) ! 0) = 4"
    "createdOn (heap (run ?two example) ! 0) = 0"
    "accessedOn (heap (run ?two example) ! 0) = 11"
    by (simp_all only: e) simp_all
  have 6: "accessCount (heap (run [OpValue (Hashable ''a'') []] example) ! 0) = 3"
    by (simp only: e1) simp
  show ?thesis
    using example_ok l n h(1) 5 6 4 1 3 by (intro conjI)
qed

text \<open>
  The claim as written fails at the largest \<open>int64\<close>. From the table of the
  examples, where the item of \<open>a\<close> has been accessed twice, \<open>2^63 - 3\<close> calls of
  \<open>KeepAlive\<close> take its access count to \<open>2^63 - 1\<close>, and one more takes it to
  \<open>-2^63\<close>. So does a look-up of \<open>a\<close>, or a \<open>KeepAlive\<close> of its item, in the table
  that satisfies the invariant with that item at \<open>2^63 - 1\<close>.
\<close>

theorem entries_invariant_counterexample:
  "world_ok example \<and>
   accessCount (heap example ! 0) = 2 \<and>
   accessCount (heap (run (replicate 9223372036854775805 (OpKeepAlive 0)) example) ! 0) =
     9223372036854775807 \<and>
   accessCount (heap (run (replicate 9223372036854775806 (OpKeepAlive 0)) example) ! 0) =
     - 9223372036854775808 \<and>
   world_ok brimful \<and>
   accessCount (heap brimful ! 0) = 9223372036854775807 \<and>
   accessCount (heap (run [OpKeepAlive 0] brimful) ! 0) = - 9223372036854775808 \<and>
   fst (perform (OpValue (Hashable ''a'') []) brimful) = Inr (RItem 0) \<and>
   accessCount (heap (snd (perform (OpValue (Hashable ''a'') []) brimful)) ! 0) =
     - 9223372036854775808"
proof -
  have h: "0 < length (heap example)" "accessCount (heap example ! 0) = 2"
    "- (2 ^ 63) \<le> accessCount (heap example ! 0)" "accessCount (heap example ! 0) < 2 ^ 63"
    by (simp_all add: example_def)
  have w: "wrap64 (2 + int 9223372036854775805) = 9223372036854775807"
    "wrap64 (2 + int 9223372036854775806) = - 9223372036854775808"
    by (simp_all add: wrap64_def)
  have 1: "accessCount (heap (run (replicate 9223372036854775805 (OpKeepAlive 0)) example) ! 0) =
     9223372036854775807"
    using KeepAlive_run [OF h(1) h(3) h(4), of 9223372036854775805] by (simp only: h(2) w(1))
  have 2: "accessCount (heap (run (replicate 9223372036854775806 (OpKeepAlive 0)) example) ! 0) =
     - 9223372036854775808"
    using KeepAlive_run [OF h(1) h(3) h(4), of 9223372036854775806] by (simp only: h(2) w(2))
  have 3: "world_ok brimful \<and>
   accessCount (heap brimful ! 0) = 9223372036854775807 \<and>
   accessCount (heap (run [OpKeepAlive 0] brimful) ! 0) = - 9223372036854775808 \<and>
   fst (perform (OpValue (Hashable ''a'') []) brimful) = Inr (RItem 0) \<and>
   accessCount (heap (snd (perform (OpValue (Hashable ''a'') []) brimful)) ! 0) =
     - 9223372036854775808"
    by (simp add: world_ok_def heap_ok_def item_ok_def brimful_def example_def
        Value_def KeepAlive_def Let_def case_prod_unfold time_Now_def wrap64_def)
  show ?thesis
    using example_ok h(2) 1 2 3 by (intro conjI) (elim conjE, assumption)+
qed

text \<open>
  C9, as amended. \<open>Add\<close> on a key under which a table of the right shape holds the
  entry \<open>r\<close>: the address returned is new; the
  item there has no access, no callback of its own, and the instant \<open>Add\<close> read as both
  its creation and its last access; the old item is unchanged; no call of the delete path
  is made for the old item (neither \<open>aboutToDeleteItem\<close> with it nor its own
  \<open>aboutToExpire\<close>). The key maps to the new item afterwards, unless \<open>Add\<close> ran the scan
  and the scan, reading the clock again, found the life span already over: then the scan
  has deleted the new entry and the key maps to nothing. The calls made for the new
  item are, in that case, the one call of \<open>aboutToDeleteItem\<close> with it, when that is set,
  and none otherwise: the new item has no \<open>aboutToExpire\<close>.
\<close>

theorem Add_replaces:
  assumes "table_ok w" and "map_of (items w) k = Some r"
  shows "fst (Add k l d w) = length (heap w) \<and>
         length (heap w) \<noteq> r \<and>
         heap (snd (Add k l d w)) =
           heap w @ [\<lparr>key = k, data = d, lifeSpan = l, createdOn = fst (time_Now w),
                      accessedOn = fst (time_Now w), accessCount = 0,
                      aboutToExpire = None\<rparr>] \<and>
         heap (snd (Add k l d w)) ! r = heap w ! r \<and>
         filter (about r) (trace (snd (Add k l d w))) = filter (about r) (trace w) \<and>
         map_of (items (snd (Add k l d w))) k =
           (if scan_due l w \<and>
               l \<le> time_Sub (fst (time_Now (snd (time_Now w)))) (fst (time_Now w))
            then None else Some (length (heap w))) \<and>
         filter (about (length (heap w))) (trace (snd (Add k l d w))) =
           filter (about (length (heap w))) (trace w) @
           (if scan_due l w \<and>
               l \<le> time_Sub (fst (time_Now (snd (time_Now w)))) (fst (time_Now w))
            then (case aboutToDeleteItem w of
                    None \<Rightarrow> [] | Some f \<Rightarrow> [CallAboutToDeleteItem f (length (heap w))])
            else [])"
proof -
  have d: "distinct (map fst (items w))" and s: "distinct (map snd (items w))"
    using assms(1) by (simp_all add: table_ok_def)
  have m: "(k, r) \<in> set (items w)"
    using assms(2) by (rule map_of_SomeD)
  then have v: "r < length (heap w)"
    using assms(1) by (auto simp add: table_ok_def)
  have u: "\<forall>e\<in>set (items w). snd e = r \<longrightarrow> fst e = k"
  proof (intro ballI impI)
    fix e assume "e \<in> set (items w)" "snd e = r"
    then have "e = (k, r)"
      using s m by (auto simp add: distinct_map inj_on_def)
    then show "fst e = k" by simp
  qed
  have "fst (Add k l d w) = length (heap w)"
    and "heap (snd (Add k l d w)) ! r = heap w ! r"
    using v by (simp_all add: Add_eq nth_append)
  then show ?thesis
    using v Add_key_after [OF d, of k l d] Add_about [OF d v u, of l d]
      Add_about_new [OF assms(1), of k l d] Add_heap [of k l d w]
    by (intro conjI) simp_all
qed

theorem Add_replaces_witness:
  "table_ok example \<and>
   map_of (items example) ''a'' = Some 0 \<and>
   scan_due 2 example \<and>
   fst (Add ''a'' 2 ''v'' example) = 3 \<and>
   heap (snd (Add ''a'' 2 ''v'' example)) ! 3 =
     \<lparr>key = ''a'', data = ''v'', lifeSpan = 2, createdOn = 10, accessedOn = 10,
       accessCount = 0, aboutToExpire = None\<rparr> \<and>
   filter (about 0) (trace (snd (Add ''a'' 2 ''v'' example))) = [] \<and>
   map_of (items (snd (Add ''a'' 2 ''v'' example))) ''a'' = Some 3 \<and>
   filter (about 3) (trace (snd (Add ''a'' 2 ''v'' example))) = [] \<and>
   scan_due 1 example \<and>
   map_of (items (snd (Add ''a'' 1 ''v'' example))) ''a'' = None \<and>
   filter (about 3) (trace (snd (Add ''a'' 1 ''v'' example))) = [CallAboutToDeleteItem 2 3]"
proof -
  have m: "map_of (items example) ''a'' = Some 0"
    and d: "distinct (map fst (items example))"
    and s: "scan_due 2 example"
    and ok: "table_ok example"
    by (simp_all add: example_def scan_due_def table_ok_def)
  have t: "fst (time_Now example) = 10" "fst (time_Now (snd (time_Now example))) = 11"
    by (simp_all add: example_def time_Now_def)
  have h: "(heap example @ [x]) ! 3 = x" "length (heap example) = 3" "trace example = []" for x
    by (simp_all add: example_def)
  have s1: "scan_due 1 example" and cb: "aboutToDeleteItem example = Some 2"
    by (simp_all add: example_def scan_due_def)
  show ?thesis
    using Add_replaces [OF ok m, of 2 "''v''"] Add_replaces [OF ok m, of 1 "''v''"] m d s s1 ok
    by (simp add: t h cb time_Sub_def maxDuration_def minDuration_def)
qed

text \<open>
  The claim as written fails: between the instant \<open>Add\<close> stamps on the item and the
  instant its scan reads, at least the life span (one nanosecond here) has passed. The scan
  deletes the entry \<open>Add\<close> has just stored, with the call of \<open>aboutToDeleteItem\<close> for it,
  and the key maps to nothing when \<open>Add\<close> returns.
\<close>

theorem Add_replaces_counterexample:
  "map_of (items example) ''a'' = Some 0 \<and>
   map_of (items (snd (Add ''a'' 1 ''v'' example))) ''a'' = None \<and>
   filter is_delete_path (trace (snd (Add ''a'' 1 ''v'' example))) =
     [CallAboutToDeleteItem 2 3, MapDelete ''a'',
      CallAboutToDeleteItem 2 1, CallAboutToExpire 7 1 ''b'', MapDelete ''b'']"
proof -
  have m: "map_of (items example) ''a'' = Some 0"
    and d: "distinct (map fst (items example))"
    and s: "scan_due 1 example"
    by (simp_all add: example_def scan_due_def)
  have t: "fst (time_Now example) = 10" "fst (time_Now (snd (time_Now example))) = 11"
    by (simp_all add: example_def time_Now_def)
  have 1: "map_of (items (snd (Add ''a'' 1 ''v'' example))) ''a'' = None"
    using Add_key_after [OF d, of "''a''" 1 "''v''"] s
    by (simp add: t time_Sub_def maxDuration_def minDuration_def)
  let ?s = "stored [TableLock] ''a'' 1 ''v'' example"
  have ds: "distinct (map fst (items ?s))"
    using d by (simp add: distinct_update)
  have ts: "fst (time_Now ?s) = 11"
    by (simp add: time_Now_fst t [unfolded time_Now_fst] example_def)
  have "filter is_delete_path (trace (expirationCheck ?s)) =
     [CallAboutToDeleteItem 2 3, MapDelete ''a'',
      CallAboutToDeleteItem 2 1, CallAboutToExpire 7 1 ''b'', MapDelete ''b'']"
    unfolding expirationCheck_delete_path [OF ds] ts
    by (simp add: stored_def example_def time_Now_def expired_def idle_def time_Sub_def
          maxDuration_def minDuration_def delete_path_def)
  then have 2: "filter is_delete_path (trace (snd (Add ''a'' 1 ''v'' example))) =
     [CallAboutToDeleteItem 2 3, MapDelete ''a'',
      CallAboutToDeleteItem 2 1, CallAboutToExpire 7 1 ''b'', MapDelete ''b'']"
    using s by (simp add: Add_eq)
  show ?thesis using m 1 2 by simp
qed

text \<open>
  C10, as amended. \<open>Value\<close> of a key the table does not hold, with a loader that returns
  a valid pointer \<open>e\<close>: \<open>Value\<close> returns \<open>e\<close>; \<open>Add\<close> makes a new item, at another
  address, from the key and from the life span and the data of \<open>e\<close> alone (no access, no
  callback of its own, whatever those of \<open>e\<close> are); the item at \<open>e\<close> is as the loader
  left it, so no keep-alive has touched it. The key maps to the new item afterwards,
  unless that \<open>Add\<close> ran the scan and the scan, reading the clock again, found the life
  span already over: then the scan has deleted the new entry and the key maps to nothing.
\<close>

theorem Value_loads:
  assumes "map_of (items w) k = None" and "loadData w = Some f"
      and "f k args (clk w) (heap w) = (Some e, h)"
      and "e < length h"
      and "distinct (map fst (items w))"
  shows "fst (Value k args w) = Inr e \<and>
         e \<noteq> length h \<and>
         heap (snd (Value k args w)) =
           h @ [\<lparr>key = k, data = data (h ! e), lifeSpan = lifeSpan (h ! e),
                  createdOn = fst (time_Now w), accessedOn = fst (time_Now w),
                  accessCount = 0, aboutToExpire = None\<rparr>] \<and>
         heap (snd (Value k args w)) ! e = h ! e \<and>
         map_of (items (snd (Value k args w))) k =
           (if scan_due (lifeSpan (h ! e)) w \<and>
               lifeSpan (h ! e) \<le> time_Sub (fst (time_Now (snd (time_Now w)))) (fst (time_Now w))
            then None else Some (length h))"
proof -
  let ?wl = "w\<lparr>heap := h,
                trace := trace w @ [TableRLock, MapLoad k, TableRUnlock, CallLoadData k]\<rparr>"
  have d: "distinct (map fst (items ?wl))" using assms(5) by simp
  have t: "fst (time_Now ?wl) = fst (time_Now w)"
    "fst (time_Now (snd (time_Now ?wl))) = fst (time_Now (snd (time_Now w)))"
    by (simp_all add: time_Now_fst)
  have s: "scan_due l ?wl = scan_due l w" for l
    by (simp add: scan_due_def)
  show ?thesis
    unfolding Value_load [OF assms(1,2,3)]
    using assms(4) Add_key_after [OF d, of k "lifeSpan (h ! e)" "data (h ! e)"]
    by (simp add: Add_heap t s nth_append)
qed

theorem Value_loads_witness:
  "map_of (items (loading 2)) ''q'' = None \<and>
   fst (Value ''q'' [] (loading 2)) = Inr 3 \<and>
   heap (snd (Value ''q'' [] (loading 2))) ! 3 =
     \<lparr>key = ''q'', data = ''loaded'', lifeSpan = 2, createdOn = 8, accessedOn = 8,
       accessCount = 5, aboutToExpire = Some 9\<rparr> \<and>
   heap (snd (Value ''q'' [] (loading 2))) ! 4 =
     \<lparr>key = ''q'', data = ''loaded'', lifeSpan = 2, createdOn = 10, accessedOn = 10,
       accessCount = 0, aboutToExpire = None\<rparr> \<and>
   map_of (items (snd (Value ''q'' [] (loading 2)))) ''q'' = Some 4"
proof -
  let ?h = "heap example @
        [\<lparr>key = ''q'', data = ''loaded'', lifeSpan = 2, createdOn = 8, accessedOn = 8,
          accessCount = 5, aboutToExpire = Some 9\<rparr>]"
  have e: "3 < length ?h" by (simp add: loading_facts)
  have h3: "?h ! 3 = \<lparr>key = ''q'', data = ''loaded'', lifeSpan = 2, createdOn = 8,
      accessedOn = 8, accessCount = 5, aboutToExpire = Some 9\<rparr>"
    and h4: "(?h @ [x]) ! 4 = x" and len: "length ?h = 4" for x
    by (simp_all add: example_def)
  from Value_loads [OF loading_facts(1,2,3) e loading_facts(4)] loading_facts(1)
  show ?thesis
    unfolding h3 len
    by (simp add: loading_facts(5,6,7,8) h4 scan_due_def time_Sub_def maxDuration_def
          minDuration_def nth_append)
qed

text \<open>
  The claim as written fails: the loaded item has a life span of one nanosecond, which has
  passed when the scan of \<open>Add\<close> reads the clock. \<open>Value\<close> returns the loaded item, and
  the table holds nothing under the key.
\<close>

theorem Value_loads_counterexample:
  "map_of (items (loading 1)) ''q'' = None \<and>
   fst (Value ''q'' [] (loading 1)) = Inr 3 \<and>
   map_of (items (snd (Value ''q'' [] (loading 1)))) ''q'' = None"
proof -
  let ?h = "heap example @
        [\<lparr>key = ''q'', data = ''loaded'', lifeSpan = 1, createdOn = 8, accessedOn = 8,
          accessCount = 5, aboutToExpire = Some 9\<rparr>]"
  let ?wl = "(loading 1)\<lparr>heap := ?h,
      trace := trace (loading 1) @ [TableRLock, MapLoad ''q'', TableRUnlock, CallLoadData ''q'']\<rparr>"
  have h3: "lifeSpan (?h ! 3) = 1" by (simp add: example_def)
  have d: "distinct (map fst (items ?wl))" by (simp add: loading_facts)
  have t: "fst (time_Now ?wl) = 10" "fst (time_Now (snd (time_Now ?wl))) = 11"
    using loading_facts(5,6) [of 1] by (simp_all add: time_Now_fst)
  have s: "scan_due 1 ?wl" by (simp add: scan_due_def loading_facts)
  have "map_of (items (snd (Add ''q'' 1 (data (?h ! 3)) ?wl))) ''q'' = None"
    using Add_key_after [OF d, of "''q''" 1 "data (?h ! 3)"] s
    by (simp only: t time_Sub_def maxDuration_def minDuration_def) simp
  then show ?thesis
    unfolding Value_load [OF loading_facts(1,2,3)] h3
    by (simp add: loading_facts(1))
qed

end
